theory Spec2Isabelle
  imports Complex_Main "HOL-Library.AList"
begin

section \<open>JavaScript values\<close>

text \<open>
  The configuration pipeline of \<^verbatim>\<open>src/server/utils/config.ts\<close> works on the
  untyped value that \<^verbatim>\<open>yaml.parse\<close> returns. Such a value is \<^verbatim>\<open>undefined\<close>,
  \<^verbatim>\<open>null\<close>, a boolean, a number, a string, an array or a plain object. An object is
  the list of its own enumerable properties in the order in which the engine enumerates
  them (\<^verbatim>\<open>Object.entries\<close>, \<^verbatim>\<open>for ... in\<close>, \<^verbatim>\<open>JSON.stringify\<close>). A hole
  of an array reads as \<^verbatim>\<open>undefined\<close> and is written \<open>JUndefined\<close>.

  Numbers keep what the program can observe of them: whether the number is finite, is
  zero or is \<^verbatim>\<open>NaN\<close>. Strings are byte strings.
\<close>

datatype jsnum = Finite rat | NaN | PosInf | NegInf

datatype jsval =
    JUndefined
  | JNull
  | JBool bool
  | JNum jsnum
  | JStr string
  | JArr "jsval list"
  | JObj "(string \<times> jsval) list"

type_synonym props = "(string \<times> jsval) list"

text \<open>What a \<^verbatim>\<open>throw\<close> carries: an \<^verbatim>\<open>Error\<close> with its message (a
  \<^verbatim>\<open>TypeError\<close> of the engine is one), a \<^verbatim>\<open>ZodError\<close> with its issues, or any
  other value (JavaScript lets a collaborator throw a value that is no \<^verbatim>\<open>Error\<close>).\<close>

datatype issue =
    invalid_type "string list" string string
  | invalid_union "string list" "issue list list"

datatype thrown = Error string | ZodError "issue list" | NonError jsval

text \<open>The messages of the engine's own \<^verbatim>\<open>TypeError\<close>s differ between engines; the
  model names the operation that failed.\<close>

definition TypeError :: "string \<Rightarrow> thrown" where
  "TypeError what = Error what"

text \<open>\<^verbatim>\<open>a || b\<close> and \<^verbatim>\<open>!a\<close> test truthiness.\<close>

fun truthy :: "jsval \<Rightarrow> bool" where
  "truthy JUndefined = False"
| "truthy JNull = False"
| "truthy (JBool b) = b"
| "truthy (JNum n) = (n \<noteq> Finite 0 \<and> n \<noteq> NaN)"
| "truthy (JStr s) = (s \<noteq> [])"
| "truthy (JArr xs) = True"
| "truthy (JObj kvs) = True"

definition js_or :: "jsval \<Rightarrow> jsval \<Rightarrow> jsval" where
  "js_or a b = (if truthy a then a else b)"

subsection \<open>Property keys\<close>

text \<open>A number used as a property key is its decimal numeral.\<close>

definition digit_char :: "nat \<Rightarrow> char" where
  "digit_char d = char_of (48 + d)"

fun show_nat :: "nat \<Rightarrow> string" where
  "show_nat n = (if n < 10 then [digit_char n] else show_nat (n div 10) @ [digit_char (n mod 10)])"

declare show_nat.simps [simp del]

definition is_digit :: "char \<Rightarrow> bool" where
  "is_digit c = (48 \<le> (of_char c :: nat) \<and> (of_char c :: nat) \<le> 57)"

definition read_nat :: "string \<Rightarrow> nat" where
  "read_nat s = foldl (\<lambda>n c. 10 * n + ((of_char c :: nat) - 48)) 0 s"

text \<open>An array index is a canonical numeral below \<open>2^32 - 1\<close>. The engine enumerates
  the array indices of an object first, in ascending order, and its other keys after
  them, in the order in which they were created.\<close>

definition array_index :: "string \<Rightarrow> nat option" where
  "array_index k =
     (if k \<noteq> [] \<and> list_all is_digit k \<and> (k = ''0'' \<or> hd k \<noteq> CHR ''0'')
         \<and> read_nat k < 4294967295
      then Some (read_nat k) else None)"

fun insert_index :: "nat \<Rightarrow> string \<Rightarrow> jsval \<Rightarrow> props \<Rightarrow> props" where
  "insert_index i k v [] = [(k, v)]"
| "insert_index i k v ((k', v') # rest) =
     (case array_index k' of
        Some j \<Rightarrow> if j < i then (k', v') # insert_index i k v rest
                  else (k, v) # (k', v') # rest
      | None \<Rightarrow> (k, v) # (k', v') # rest)"

text \<open>\<^verbatim>\<open>obj[k] = v\<close> on an object: an existing property keeps its place.\<close>

definition obj_set :: "string \<Rightarrow> jsval \<Rightarrow> props \<Rightarrow> props" where
  "obj_set k v kvs =
     (if map_of kvs k \<noteq> None then AList.update k v kvs
      else case array_index k of
             Some i \<Rightarrow> insert_index i k v kvs
           | None \<Rightarrow> kvs @ [(k, v)])"

definition has_key :: "jsval \<Rightarrow> string \<Rightarrow> bool" where
  "has_key v k = (case v of JObj kvs \<Rightarrow> map_of kvs k \<noteq> None | _ \<Rightarrow> False)"

text \<open>\<^verbatim>\<open>v[k]\<close> for a receiver that is neither \<^verbatim>\<open>null\<close> nor \<^verbatim>\<open>undefined\<close>.
  Only own properties are read: the members that objects, arrays and strings inherit
  from their prototypes (\<^verbatim>\<open>constructor\<close>, \<^verbatim>\<open>toString\<close>, \<^verbatim>\<open>map\<close>, ...) are
  functions, which a parsed document never holds, and none of them has a name that this
  program reads from a document (\<^verbatim>\<open>tags\<close>, \<^verbatim>\<open>services\<close>, \<^verbatim>\<open>name\<close>, and the field
  names of the schema).\<close>

fun js_get :: "jsval \<Rightarrow> string \<Rightarrow> jsval" where
  "js_get (JObj kvs) k = (case map_of kvs k of Some v \<Rightarrow> v | None \<Rightarrow> JUndefined)"
| "js_get (JArr xs) k =
     (case array_index k of
        Some i \<Rightarrow> if i < length xs then xs ! i else JUndefined
      | None \<Rightarrow> if k = ''length'' then JNum (Finite (of_nat (length xs))) else JUndefined)"
| "js_get (JStr s) k =
     (case array_index k of
        Some i \<Rightarrow> if i < length s then JStr [s ! i] else JUndefined
      | None \<Rightarrow> if k = ''length'' then JNum (Finite (of_nat (length s))) else JUndefined)"
| "js_get v k = JUndefined"

text \<open>Reading a property of \<^verbatim>\<open>null\<close> or \<^verbatim>\<open>undefined\<close> throws.\<close>

definition get_prop :: "jsval \<Rightarrow> string \<Rightarrow> thrown + jsval" where
  "get_prop v k =
     (if v = JNull \<or> v = JUndefined then Inl (TypeError (''Cannot read properties of null or undefined: '' @ k))
      else Inr (js_get v k))"

text \<open>The own enumerable properties of a value, as \<^verbatim>\<open>Object.entries\<close> and the spread
  \<^verbatim>\<open>{...v}\<close> list them.\<close>

fun indexed :: "nat \<Rightarrow> 'a list \<Rightarrow> (string \<times> 'a) list" where
  "indexed i [] = []"
| "indexed i (x # xs) = (show_nat i, x) # indexed (Suc i) xs"

fun own_props :: "jsval \<Rightarrow> props" where
  "own_props (JObj kvs) = kvs"
| "own_props (JArr xs) = indexed 0 xs"
| "own_props (JStr s) = indexed 0 (map (\<lambda>c. JStr [c]) s)"
| "own_props v = []"

section \<open>The schema language (zod)\<close>

text \<open>
  \<^verbatim>\<open>validateConfigSchema\<close> builds its schema from the combinators of the zod
  library (version 3) and calls \<^verbatim>\<open>schema.parse\<close>. The combinators that the source
  uses are the constructors of \<open>zod\<close>; \<open>parse\<close> is the library's synchronous
  \<^verbatim>\<open>_parse\<close>:
  \<^item> a primitive schema accepts the values of its type; \<^verbatim>\<open>z.number()\<close> rejects
    \<^verbatim>\<open>NaN\<close>; \<^verbatim>\<open>z.any()\<close> accepts everything;
  \<^item> \<^verbatim>\<open>.optional()\<close> accepts \<^verbatim>\<open>undefined\<close>, \<^verbatim>\<open>.nullable()\<close> accepts
    \<^verbatim>\<open>null\<close>, and \<^verbatim>\<open>.nullish()\<close> is \<^verbatim>\<open>.nullable().optional()\<close>;
  \<^item> \<^verbatim>\<open>z.object(shape)\<close> (no \<^verbatim>\<open>.strict()\<close>, no \<^verbatim>\<open>.passthrough()\<close>) parses
    the fields of its shape, in the order of the shape, ignores every other key of the
    input and returns a new object that holds the parsed fields only;
  \<^item> \<^verbatim>\<open>z.array\<close> and \<^verbatim>\<open>z.record\<close> parse every element, and \<^verbatim>\<open>z.union\<close>
    returns the result of its first option that accepts the input;
  \<^item> every failure is an issue with the path of the value that failed; an array, an
    object and a record report the issues of all their parts, and a union whose
    options all fail reports one \<^verbatim>\<open>invalid_union\<close> issue that holds the issues of
    each option.
  None of the schemas used here has a refinement, so a result is either valid or
  aborted (\<open>None\<close>).
\<close>

datatype zod =
    ZString
  | ZNumber
  | ZBoolean
  | ZAny
  | ZOptional zod
  | ZNullable zod
  | ZArray zod
  | ZRecord zod
  | ZObject "(string \<times> zod) list"
  | ZUnion "zod list"

definition nullish :: "zod \<Rightarrow> zod" where
  "nullish s = ZOptional (ZNullable s)"

fun getParsedType :: "jsval \<Rightarrow> string" where
  "getParsedType JUndefined = ''undefined''"
| "getParsedType JNull = ''null''"
| "getParsedType (JBool b) = ''boolean''"
| "getParsedType (JNum n) = (if n = NaN then ''nan'' else ''number'')"
| "getParsedType (JStr s) = ''string''"
| "getParsedType (JArr xs) = ''array''"
| "getParsedType (JObj kvs) = ''object''"

text \<open>A parsed field of an object or record: its key, its parsed value (\<open>None\<close> when
  aborted) and whether the key is in the input (\<^verbatim>\<open>alwaysSet\<close>).\<close>

type_synonym pair = "string \<times> jsval option \<times> bool"

fun mergeObjectSync :: "pair list \<Rightarrow> props \<Rightarrow> jsval option" where
  "mergeObjectSync [] finalObject = Some (JObj finalObject)"
| "mergeObjectSync ((k, None, a) # pairs) finalObject = None"
| "mergeObjectSync ((k, Some v, a) # pairs) finalObject =
     mergeObjectSync pairs
       (if k \<noteq> ''__proto__'' \<and> (v \<noteq> JUndefined \<or> a) then obj_set k v finalObject
        else finalObject)"

fun mergeArray :: "jsval option list \<Rightarrow> jsval list option" where
  "mergeArray [] = Some []"
| "mergeArray (None # rs) = None"
| "mergeArray (Some v # rs) = map_option ((#) v) (mergeArray rs)"

definition expect :: "string \<Rightarrow> string list \<Rightarrow> jsval \<Rightarrow> issue list \<times> jsval option" where
  "expect ty path v =
     (if getParsedType v = ty then ([], Some v)
      else ([invalid_type path ty (getParsedType v)], None))"

fun parse :: "zod \<Rightarrow> string list \<Rightarrow> jsval \<Rightarrow> issue list \<times> jsval option"
  and parse_shape :: "(string \<times> zod) list \<Rightarrow> string list \<Rightarrow> jsval \<Rightarrow> issue list \<times> pair list"
  and parse_options ::
    "zod list \<Rightarrow> string list \<Rightarrow> jsval \<Rightarrow> issue list list \<Rightarrow> issue list \<times> jsval option"
where
  "parse ZString path v = expect ''string'' path v"
| "parse ZNumber path v = expect ''number'' path v"
| "parse ZBoolean path v = expect ''boolean'' path v"
| "parse ZAny path v = ([], Some v)"
| "parse (ZOptional s) path v =
     (if v = JUndefined then ([], Some JUndefined) else parse s path v)"
| "parse (ZNullable s) path v =
     (if v = JNull then ([], Some JNull) else parse s path v)"
| "parse (ZArray s) path v =
     (case v of
        JArr xs \<Rightarrow>
          (let rs = map (\<lambda>(i, x). parse s (path @ [i]) x) (indexed 0 xs)
           in (concat (map fst rs), map_option JArr (mergeArray (map snd rs))))
      | _ \<Rightarrow> ([invalid_type path ''array'' (getParsedType v)], None))"
| "parse (ZRecord s) path v =
     (case v of
        JObj kvs \<Rightarrow>
          (let rs = map (\<lambda>(k, x). (k, parse s (path @ [k]) x)) kvs
           in (concat (map (\<lambda>(k, r). fst r) rs),
               mergeObjectSync (map (\<lambda>(k, r). (k, snd r, True)) rs) []))
      | _ \<Rightarrow> ([invalid_type path ''object'' (getParsedType v)], None))"
| "parse (ZObject shape) path v =
     (case v of
        JObj kvs \<Rightarrow>
          (case parse_shape shape path v of
             (issues, pairs) \<Rightarrow> (issues, mergeObjectSync pairs []))
      | _ \<Rightarrow> ([invalid_type path ''object'' (getParsedType v)], None))"
| "parse (ZUnion options) path v = parse_options options path v []"
| "parse_shape [] path v = ([], [])"
| "parse_shape ((k, s) # shape) path v =
     (case parse s (path @ [k]) (js_get v k) of
        (issues, r) \<Rightarrow>
          (case parse_shape shape path v of
             (issues', pairs) \<Rightarrow> (issues @ issues', (k, r, has_key v k) # pairs)))"
| "parse_options [] path v unionErrors = ([invalid_union path unionErrors], None)"
| "parse_options (s # options) path v unionErrors =
     (case parse s path v of
        (issues, Some out) \<Rightarrow> ([], Some out)
      | (issues, None) \<Rightarrow>
          parse_options options path v
            (if issues = [] then unionErrors else unionErrors @ [issues]))"

text \<open>The default error map of the library.\<close>

fun issue_message :: "issue \<Rightarrow> string" where
  "issue_message (invalid_type path ty received) =
     (if received = ''undefined'' then ''Required''
      else ''Expected '' @ ty @ '', received '' @ received)"
| "issue_message (invalid_union path unionErrors) = ''Invalid input''"

section \<open>Error reports: \<^verbatim>\<open>ZodError.format\<close> and \<^verbatim>\<open>JSON.stringify\<close>\<close>

text \<open>
  \<^verbatim>\<open>e.format()\<close> starts from \<^verbatim>\<open>{ _errors: [] }\<close> and, for every issue that is
  not a union, walks the issue's path from the root: \<^verbatim>\<open>curr[el] = curr[el] || { _errors: [] }\<close>
  at every element, \<^verbatim>\<open>curr[el]._errors.push(message)\<close> at the last one. The issues of
  the options of a failed union are walked in the same way; the union issue itself adds
  nothing. The walk is ordinary property access, so it is written with \<open>js_get\<close> and
  \<open>js_put\<close>.

  \<^verbatim>\<open>v[k] = x\<close>: on an object, \<open>obj_set\<close>; on an array, an index at or beyond the
  length extends the array with holes. A property of an array whose key is no index is
  never enumerated by \<^verbatim>\<open>JSON.stringify\<close>, so the array is left as it is. The library
  is a module, that is strict code, where an assignment to a property of a primitive
  value throws.
\<close>

fun js_put :: "jsval \<Rightarrow> string \<Rightarrow> jsval \<Rightarrow> thrown + jsval" where
  "js_put (JObj kvs) k x = Inr (JObj (obj_set k x kvs))"
| "js_put (JArr xs) k x =
     (case array_index k of
        Some i \<Rightarrow>
          Inr (JArr (if i < length xs then xs[i := x]
                     else xs @ replicate (i - length xs) JUndefined @ [x]))
      | None \<Rightarrow> Inr (JArr xs))"
| "js_put v k x = Inl (TypeError (''Cannot create property '' @ k))"

definition empty_node :: jsval where
  "empty_node = JObj [(''_errors'', JArr [])]"

text \<open>\<^verbatim>\<open>node._errors.push(msg)\<close>\<close>

definition push_error :: "jsval \<Rightarrow> string \<Rightarrow> thrown + jsval" where
  "push_error node msg =
     (case js_get node ''_errors'' of
        JArr es \<Rightarrow> js_put node ''_errors'' (JArr (es @ [JStr msg]))
      | _ \<Rightarrow> Inl (TypeError ''_errors.push is not a function''))"

fun add_issue :: "jsval \<Rightarrow> string list \<Rightarrow> string \<Rightarrow> thrown + jsval" where
  "add_issue cur [] msg = Inr cur"
| "add_issue cur (el # path) msg =
     (let child = js_or (js_get cur el) empty_node in
      case js_put cur el child of
        Inl e \<Rightarrow> Inl e
      | Inr _ \<Rightarrow>
          (case (if path = [] then push_error child msg else add_issue child path msg) of
             Inl e \<Rightarrow> Inl e
           | Inr child' \<Rightarrow> js_put cur el child'))"

fun processError :: "issue list \<Rightarrow> jsval \<Rightarrow> thrown + jsval"
  and processErrors :: "issue list list \<Rightarrow> jsval \<Rightarrow> thrown + jsval"
where
  "processError [] fieldErrors = Inr fieldErrors"
| "processError (invalid_union path unionErrors # issues) fieldErrors =
     (case processErrors unionErrors fieldErrors of
        Inl e \<Rightarrow> Inl e
      | Inr fieldErrors' \<Rightarrow> processError issues fieldErrors')"
| "processError (invalid_type path ty received # issues) fieldErrors =
     (case (if path = []
            then push_error fieldErrors (issue_message (invalid_type path ty received))
            else add_issue fieldErrors path (issue_message (invalid_type path ty received))) of
        Inl e \<Rightarrow> Inl e
      | Inr fieldErrors' \<Rightarrow> processError issues fieldErrors')"
| "processErrors [] fieldErrors = Inr fieldErrors"
| "processErrors (error # errors) fieldErrors =
     (case processError error fieldErrors of
        Inl e \<Rightarrow> Inl e
      | Inr fieldErrors' \<Rightarrow> processErrors errors fieldErrors')"

definition format :: "issue list \<Rightarrow> thrown + jsval" where
  "format issues = processError issues empty_node"

subsection \<open>\<^verbatim>\<open>JSON.stringify\<close>\<close>

text \<open>
  Both replacers of the source have the form \<^verbatim>\<open>(key, val) => cond ? undefined : val\<close>:
  a replacer is the test \<^verbatim>\<open>cond\<close>, which may throw. \<open>serialize\<close> is the value that
  the JSON text denotes (\<^verbatim>\<open>SerializeJSONProperty\<close>): a property whose value is
  \<^verbatim>\<open>undefined\<close> is left out of its object, an \<^verbatim>\<open>undefined\<close> element of an array
  becomes \<^verbatim>\<open>null\<close>, and so does a number that is not finite. The result
  \<open>JUndefined\<close> says that there is no text.
\<close>

type_synonym replacer = "string \<Rightarrow> jsval \<Rightarrow> thrown + bool"

definition is_finite :: "jsnum \<Rightarrow> bool" where
  "is_finite n = (case n of Finite q \<Rightarrow> True | _ \<Rightarrow> False)"

fun serialize :: "replacer \<Rightarrow> string \<Rightarrow> jsval \<Rightarrow> thrown + jsval"
  and serialize_props :: "replacer \<Rightarrow> props \<Rightarrow> thrown + props"
  and serialize_items :: "replacer \<Rightarrow> nat \<Rightarrow> jsval list \<Rightarrow> thrown + jsval list"
where
  "serialize r key v =
     (case r key v of
        Inl e \<Rightarrow> Inl e
      | Inr True \<Rightarrow> Inr JUndefined
      | Inr False \<Rightarrow>
          (case v of
             JObj kvs \<Rightarrow>
               (case serialize_props r kvs of Inl e \<Rightarrow> Inl e | Inr kvs' \<Rightarrow> Inr (JObj kvs'))
           | JArr xs \<Rightarrow>
               (case serialize_items r 0 xs of Inl e \<Rightarrow> Inl e | Inr xs' \<Rightarrow> Inr (JArr xs'))
           | JNum n \<Rightarrow> Inr (if is_finite n then JNum n else JNull)
           | _ \<Rightarrow> Inr v))"
| "serialize_props r [] = Inr []"
| "serialize_props r ((k, v) # kvs) =
     (case serialize r k v of
        Inl e \<Rightarrow> Inl e
      | Inr v' \<Rightarrow>
          (case serialize_props r kvs of
             Inl e \<Rightarrow> Inl e
           | Inr kvs' \<Rightarrow> Inr (if v' = JUndefined then kvs' else (k, v') # kvs')))"
| "serialize_items r i [] = Inr []"
| "serialize_items r i (x # xs) =
     (case serialize r (show_nat i) x of
        Inl e \<Rightarrow> Inl e
      | Inr x' \<Rightarrow>
          (case serialize_items r (Suc i) xs of
             Inl e \<Rightarrow> Inl e
           | Inr xs' \<Rightarrow> Inr ((if x' = JUndefined then JNull else x') # xs')))"

declare serialize.simps(1) [simp del]

text \<open>The text of a serialized value (\<^verbatim>\<open>QuoteJSONString\<close>, \<^verbatim>\<open>SerializeJSONObject\<close>,
  \<^verbatim>\<open>SerializeJSONArray\<close>) for the indentation unit \<open>gap\<close>. How the engine writes a
  number is a parameter.\<close>

definition hex_digit :: "nat \<Rightarrow> char" where
  "hex_digit d = (if d < 10 then char_of (48 + d) else char_of (87 + d))"

definition quote_char :: "char \<Rightarrow> string" where
  "quote_char c =
     (if c = CHR 0x22 then [CHR 0x5C, CHR 0x22]
      else if c = CHR 0x5C then [CHR 0x5C, CHR 0x5C]
      else if c = CHR 0x08 then [CHR 0x5C, CHR ''b'']
      else if c = CHR 0x0C then [CHR 0x5C, CHR ''f'']
      else if c = CHR 0x0A then [CHR 0x5C, CHR ''n'']
      else if c = CHR 0x0D then [CHR 0x5C, CHR ''r'']
      else if c = CHR 0x09 then [CHR 0x5C, CHR ''t'']
      else if (of_char c :: nat) < 32
        then [CHR 0x5C, CHR ''u'', CHR ''0'', CHR ''0'',
              hex_digit ((of_char c :: nat) div 16), hex_digit ((of_char c :: nat) mod 16)]
      else [c])"

definition quote :: "string \<Rightarrow> string" where
  "quote s = [CHR 0x22] @ concat (map quote_char s) @ [CHR 0x22]"

fun join :: "string \<Rightarrow> string list \<Rightarrow> string" where
  "join sep [] = []"
| "join sep [x] = x"
| "join sep (x # y # ys) = x @ sep @ join sep (y # ys)"

definition wrap :: "char \<Rightarrow> char \<Rightarrow> string \<Rightarrow> string \<Rightarrow> string list \<Rightarrow> string" where
  "wrap opening closing gap stepback partial =
     (if partial = [] then [opening, closing]
      else if gap = [] then [opening] @ join '','' partial @ [closing]
      else [opening, CHR 0x0A] @ stepback @ gap
           @ join ([CHR '','', CHR 0x0A] @ stepback @ gap) partial
           @ [CHR 0x0A] @ stepback @ [closing])"

fun json_text :: "(jsnum \<Rightarrow> string) \<Rightarrow> string \<Rightarrow> string \<Rightarrow> jsval \<Rightarrow> string"
  and json_members :: "(jsnum \<Rightarrow> string) \<Rightarrow> string \<Rightarrow> string \<Rightarrow> props \<Rightarrow> string list"
  and json_elements :: "(jsnum \<Rightarrow> string) \<Rightarrow> string \<Rightarrow> string \<Rightarrow> jsval list \<Rightarrow> string list"
where
  "json_text num gap indent JUndefined = ''null''"
| "json_text num gap indent JNull = ''null''"
| "json_text num gap indent (JBool b) = (if b then ''true'' else ''false'')"
| "json_text num gap indent (JNum n) = num n"
| "json_text num gap indent (JStr s) = quote s"
| "json_text num gap indent (JArr xs) =
     wrap CHR ''['' CHR '']'' gap indent (json_elements num gap (indent @ gap) xs)"
| "json_text num gap indent (JObj kvs) =
     wrap CHR ''{'' CHR ''}'' gap indent (json_members num gap (indent @ gap) kvs)"
| "json_members num gap indent [] = []"
| "json_members num gap indent ((k, v) # kvs) =
     (quote k @ '':'' @ (if gap = [] then [] else '' '') @ json_text num gap indent v)
       # json_members num gap indent kvs"
| "json_elements num gap indent [] = []"
| "json_elements num gap indent (x # xs) =
     json_text num gap indent x # json_elements num gap indent xs"

text \<open>\<^verbatim>\<open>JSON.stringify(value, replacer, gap)\<close>: a string, or \<^verbatim>\<open>undefined\<close>.\<close>

definition JSON_stringify ::
  "(jsnum \<Rightarrow> string) \<Rightarrow> jsval \<Rightarrow> replacer \<Rightarrow> string \<Rightarrow> thrown + jsval" where
  "JSON_stringify num v r gap =
     (case serialize r [] v of
        Inl e \<Rightarrow> Inl e
      | Inr JUndefined \<Rightarrow> Inr JUndefined
      | Inr t \<Rightarrow> Inr (JStr (json_text num gap [] t)))"

section \<open>The merge with the defaults (defu)\<close>

text \<open>
  \<^verbatim>\<open>defu(object, defaults)\<close> of the defu library (version 6): the result starts as a
  copy of the defaults; then, for every key of the object in turn, the keys
  \<^verbatim>\<open>__proto__\<close> and \<^verbatim>\<open>constructor\<close> and every value that is \<^verbatim>\<open>null\<close> or
  \<^verbatim>\<open>undefined\<close> are skipped; an array over an array is the object's array followed by
  the default's; a plain object over a plain object is merged by the same rule; every
  other value replaces the default.
\<close>

definition isPlainObject :: "jsval \<Rightarrow> bool" where
  "isPlainObject v = (case v of JObj kvs \<Rightarrow> True | _ \<Rightarrow> False)"

fun defu_props :: "props \<Rightarrow> props \<Rightarrow> props" where
  "defu_props [] object = object"
| "defu_props ((key, val) # baseObject) object =
     defu_props baseObject
       (if key = ''__proto__'' \<or> key = ''constructor'' then object
        else if val = JNull \<or> val = JUndefined then object
        else (case val of
                JArr xs \<Rightarrow>
                  (case js_get (JObj object) key of
                     JArr ys \<Rightarrow> obj_set key (JArr (xs @ ys)) object
                   | _ \<Rightarrow> obj_set key val object)
              | JObj b \<Rightarrow>
                  (case js_get (JObj object) key of
                     JObj d \<Rightarrow> obj_set key (JObj (defu_props b d)) object
                   | _ \<Rightarrow> obj_set key val object)
              | _ \<Rightarrow> obj_set key val object))"

text \<open>\<^verbatim>\<open>_defu(baseObject, defaults)\<close>, and \<^verbatim>\<open>defu\<close>, which folds it over its
  arguments from \<^verbatim>\<open>{}\<close>.\<close>

definition defu1 :: "jsval \<Rightarrow> jsval \<Rightarrow> jsval" where
  "defu1 baseObject defaults =
     JObj (defu_props (own_props baseObject)
             (if isPlainObject defaults then own_props defaults else []))"

definition defu :: "jsval \<Rightarrow> jsval \<Rightarrow> jsval" where
  "defu object defaults = defu1 (defu1 (JObj []) object) defaults"

section \<open>The configuration pipeline\<close>

subsection \<open>\<^verbatim>\<open>determineService\<close> and \<^verbatim>\<open>createTagMap\<close>\<close>

text \<open>\<^verbatim>\<open>TagMap = Map<Tag['name'], Tag>\<close>. The key of an entry is whatever
  \<^verbatim>\<open>tag.name\<close> is; the program looks up strings only.\<close>

type_synonym TagMap = "jsval \<rightharpoonup> jsval"

text \<open>The arrow function of the inner \<^verbatim>\<open>map\<close>: a string is looked up,
  \<^verbatim>\<open>tags.get(tag) || { name: tag, color: 'blue' }\<close>; any other value is returned
  as it is.\<close>

definition resolve_tag :: "TagMap \<Rightarrow> jsval \<Rightarrow> jsval" where
  "resolve_tag tags tag =
     (case tag of
        JStr name \<Rightarrow>
          js_or (case tags (JStr name) of Some t \<Rightarrow> t | None \<Rightarrow> JUndefined)
                (JObj [(''name'', JStr name), (''color'', JStr ''blue'')])
      | _ \<Rightarrow> tag)"

text \<open>The arrow function of the outer \<^verbatim>\<open>map\<close>, with the identifier that
  \<^verbatim>\<open>crypto.randomUUID()\<close> returned for this item:
  \<^verbatim>\<open>{ ...item, id, tags: (item.tags || []).map(...) }\<close>.\<close>

definition determine_item :: "TagMap \<Rightarrow> string \<Rightarrow> jsval \<Rightarrow> thrown + jsval" where
  "determine_item tags uuid item =
     (case get_prop item ''tags'' of
        Inl e \<Rightarrow> Inl e
      | Inr t \<Rightarrow>
          (case js_or t (JArr []) of
             JArr refs \<Rightarrow>
               Inr (JObj (obj_set ''tags'' (JArr (map (resolve_tag tags) refs))
                            (obj_set ''id'' (JStr uuid) (own_props item))))
           | _ \<Rightarrow> Inl (TypeError ''(item.tags || []).map is not a function'')))"

text \<open>\<^verbatim>\<open>crypto.randomUUID\<close> is a collaborator: \<open>randomUUID n\<close> is the string that
  its call number \<open>n\<close> of this load returns. \<open>determineService\<close> takes the number of
  calls made so far and returns the new number with the services.\<close>

fun determine_items ::
  "(nat \<Rightarrow> string) \<Rightarrow> TagMap \<Rightarrow> nat \<Rightarrow> jsval list \<Rightarrow> thrown + (jsval list \<times> nat)" where
  "determine_items randomUUID tags n [] = Inr ([], n)"
| "determine_items randomUUID tags n (item # items) =
     (case determine_item tags (randomUUID n) item of
        Inl e \<Rightarrow> Inl e
      | Inr service \<Rightarrow>
          (case determine_items randomUUID tags (Suc n) items of
             Inl e \<Rightarrow> Inl e
           | Inr (services, n') \<Rightarrow> Inr (service # services, n')))"

definition determineService ::
  "(nat \<Rightarrow> string) \<Rightarrow> nat \<Rightarrow> jsval \<Rightarrow> TagMap \<Rightarrow> thrown + (jsval list \<times> nat)" where
  "determineService randomUUID n items tags =
     (case items of
        JArr xs \<Rightarrow> determine_items randomUUID tags n xs
      | _ \<Rightarrow> Inl (TypeError ''items.map is not a function''))"

definition getDefaultConfig :: jsval where
  "getDefaultConfig =
     JObj [(''title'', JStr ''Mafl Home Page''),
           (''lang'', JStr ''en''),
           (''theme'', JStr ''system''),
           (''checkUpdates'', JBool True),
           (''behaviour'', JObj [(''target'', JStr ''_blank'')]),
           (''tags'', JArr []),
           (''services'', JArr [])]"

fun tags_reduce :: "jsval list \<Rightarrow> TagMap \<Rightarrow> thrown + TagMap" where
  "tags_reduce [] acc = Inr acc"
| "tags_reduce (tag # tags) acc =
     (case get_prop tag ''name'' of
        Inl e \<Rightarrow> Inl e
      | Inr name \<Rightarrow> tags_reduce tags (acc(name \<mapsto> tag)))"

definition createTagMap :: "jsval \<Rightarrow> thrown + TagMap" where
  "createTagMap tags =
     (case tags of
        JArr xs \<Rightarrow> tags_reduce xs Map.empty
      | _ \<Rightarrow> Inl (TypeError ''tags.reduce is not a function''))"

subsection \<open>\<^verbatim>\<open>validateConfigSchema\<close>\<close>

definition status_schema :: zod where
  "status_schema =
     ZObject [(''enabled'', ZOptional ZBoolean),
              (''interval'', ZOptional ZNumber)]"

definition icon_schema :: zod where
  "icon_schema =
     ZObject [(''url'', ZOptional ZString),
              (''name'', ZOptional ZString),
              (''wrap'', ZOptional ZBoolean),
              (''background'', ZOptional ZString),
              (''color'', ZOptional ZString)]"

definition tag_schema :: zod where
  "tag_schema = ZObject [(''name'', ZString), (''color'', ZString)]"

definition service_schema :: zod where
  "service_schema =
     ZObject [(''title'', ZOptional (nullish ZString)),
              (''description'', ZOptional (nullish ZString)),
              (''link'', ZOptional (nullish ZString)),
              (''target'', ZOptional ZString),
              (''icon'', ZOptional icon_schema),
              (''status'', ZOptional status_schema),
              (''type'', ZOptional ZString),
              (''options'', ZOptional (ZRecord ZAny)),
              (''secrets'', ZOptional (ZRecord ZAny))]"

definition schema :: zod where
  "schema =
     ZObject [(''title'', ZOptional ZString),
              (''lang'', ZOptional ZString),
              (''theme'', ZOptional ZString),
              (''checkUpdates'', ZOptional ZBoolean),
              (''tags'', ZOptional (ZArray tag_schema)),
              (''services'', ZUnion [ZArray service_schema,
                                     ZRecord (ZArray service_schema)])]"

text \<open>\<^verbatim>\<open>schema.parse(config)\<close> returns the parsed value or throws the
  \<^verbatim>\<open>ZodError\<close> of the issues.\<close>

definition validateConfigSchema :: "jsval \<Rightarrow> thrown + jsval" where
  "validateConfigSchema config =
     (case parse schema [] config of
        (issues, Some out) \<Rightarrow> Inr out
      | (issues, None) \<Rightarrow> Inl (ZodError issues))"

subsection \<open>\<^verbatim>\<open>loadLocalConfig\<close>\<close>

text \<open>
  The collaborators of one load: what \<^verbatim>\<open>storage.hasItem\<close> and
  \<^verbatim>\<open>storage.getItem\<close> answer (a value, or what they throw), the YAML parser, the
  identifier generator and the engine's way to write a number. \<^verbatim>\<open>useStorage\<close> and
  \<^verbatim>\<open>logger.error\<close> are taken to return.
\<close>

record env =
  hasItem :: "thrown + bool"
  getItem :: "thrown + string option"
  yaml_parse :: "string \<Rightarrow> thrown + jsval"
  randomUUID :: "nat \<Rightarrow> string"
  numberToString :: "jsnum \<Rightarrow> string"

text \<open>Lines 102 to 107: the parsed document, \<^verbatim>\<open>yaml.parse(raw || '') || {}\<close>.\<close>

definition read_config :: "env \<Rightarrow> thrown + jsval" where
  "read_config e =
     (case hasItem e of
        Inl x \<Rightarrow> Inl x
      | Inr found \<Rightarrow>
          if \<not> found then Inl (Error ''Config not found'')
          else (case getItem e of
                  Inl x \<Rightarrow> Inl x
                | Inr raw \<Rightarrow>
                    (case yaml_parse e (case raw of None \<Rightarrow> [] | Some text \<Rightarrow> text) of
                       Inl x \<Rightarrow> Inl x
                     | Inr parsed \<Rightarrow> Inr (js_or parsed (JObj [])))))"

text \<open>Lines 113 to 126: the groups pushed to \<^verbatim>\<open>services\<close>.\<close>

fun push_groups ::
  "(nat \<Rightarrow> string) \<Rightarrow> TagMap \<Rightarrow> nat \<Rightarrow> props \<Rightarrow> thrown + jsval list" where
  "push_groups uuid tags n [] = Inr []"
| "push_groups uuid tags n ((title, items) # entries) =
     (case determineService uuid n items tags of
        Inl x \<Rightarrow> Inl x
      | Inr (services, n') \<Rightarrow>
          (case push_groups uuid tags n' entries of
             Inl x \<Rightarrow> Inl x
           | Inr groups \<Rightarrow>
               Inr (JObj [(''title'', JStr title), (''items'', JArr services)] # groups)))"

definition normalize_services :: "(nat \<Rightarrow> string) \<Rightarrow> TagMap \<Rightarrow> jsval \<Rightarrow> thrown + jsval list" where
  "normalize_services uuid tags services =
     (case services of
        JArr xs \<Rightarrow>
          (case determineService uuid 0 services tags of
             Inl x \<Rightarrow> Inl x
           | Inr (items, n') \<Rightarrow> Inr [JObj [(''items'', JArr items)]])
      | _ \<Rightarrow> push_groups uuid tags 0 (own_props (js_or services (JArr []))))"

text \<open>Lines 108 to 128: from the parsed document to the merged configuration.\<close>

definition build_config :: "env \<Rightarrow> jsval \<Rightarrow> thrown + jsval" where
  "build_config e config =
     (case createTagMap (js_or (js_get config ''tags'') (JArr [])) of
        Inl x \<Rightarrow> Inl x
      | Inr tags \<Rightarrow>
          (case validateConfigSchema config of
             Inl x \<Rightarrow> Inl x
           | Inr validated \<Rightarrow>
               (case normalize_services (randomUUID e) tags (js_get config ''services'') of
                  Inl x \<Rightarrow> Inl x
                | Inr services \<Rightarrow>
                    Inr (defu (JObj (obj_set ''services'' (JArr services) (own_props config)))
                              getDefaultConfig))))"

definition try_block :: "env \<Rightarrow> thrown + jsval" where
  "try_block e =
     (case read_config e of
        Inl x \<Rightarrow> Inl x
      | Inr config \<Rightarrow> build_config e config)"

text \<open>The replacer of line 139:
  \<^verbatim>\<open>(key, val) => (key === '_errors' && !val.length) ? undefined : val\<close>.\<close>

definition errors_replacer :: replacer where
  "errors_replacer key val =
     (if key = ''_errors''
      then (case get_prop val ''length'' of
              Inl x \<Rightarrow> Inl x
            | Inr len \<Rightarrow> Inr (\<not> truthy len))
      else Inr False)"

text \<open>\<^verbatim>\<open>defaultConfig.error = ...\<close>\<close>

definition set_error :: "jsval \<Rightarrow> jsval \<Rightarrow> jsval" where
  "set_error msg config = JObj (obj_set ''error'' msg (own_props config))"

text \<open>The \<^verbatim>\<open>catch\<close> block. A \<^verbatim>\<open>ZodError\<close> is an \<^verbatim>\<open>Error\<close>, so line 133 first
  stores its message and line 137 then overwrites the same property; what line 133
  stored is not kept.\<close>

definition catch_block :: "env \<Rightarrow> thrown \<Rightarrow> thrown + jsval" where
  "catch_block e x =
     (case x of
        Error message \<Rightarrow> Inr (set_error (JStr message) getDefaultConfig)
      | ZodError issues \<Rightarrow>
          (case format issues of
             Inl y \<Rightarrow> Inl y
           | Inr report \<Rightarrow>
               (case JSON_stringify (numberToString e) report errors_replacer '' '' of
                  Inl y \<Rightarrow> Inl y
                | Inr text \<Rightarrow> Inr (set_error text getDefaultConfig)))
      | NonError v \<Rightarrow> Inr getDefaultConfig)"

text \<open>The result is the value that the promise resolves to, or \<open>Inl\<close> what it is
  rejected with.\<close>

definition loadLocalConfig :: "env \<Rightarrow> thrown + jsval" where
  "loadLocalConfig e =
     (case try_block e of
        Inr config \<Rightarrow> Inr config
      | Inl x \<Rightarrow> catch_block e x)"

subsection \<open>\<^verbatim>\<open>extractSafelyConfig\<close>\<close>

text \<open>The replacer of line 161: \<^verbatim>\<open>(key, val) => key === 'secrets' ? undefined : val\<close>.
  \<^verbatim>\<open>JSON.parse\<close> reads the text back as the value that it denotes; without a text
  (\<^verbatim>\<open>JSON.parse(undefined)\<close>) it throws a \<^verbatim>\<open>SyntaxError\<close>.\<close>

definition secrets_replacer :: replacer where
  "secrets_replacer key val = Inr (key = ''secrets'')"

definition extractSafelyConfig :: "jsval \<Rightarrow> thrown + jsval" where
  "extractSafelyConfig config =
     (case serialize secrets_replacer [] config of
        Inl x \<Rightarrow> Inl x
      | Inr JUndefined \<Rightarrow> Inl (Error ''SyntaxError: undefined is not valid JSON'')
      | Inr copy \<Rightarrow> Inr copy)"

subsection \<open>Example environments\<close>

text \<open>A load whose storage holds a file that parses to \<open>doc\<close>; the generator
  returns \<^verbatim>\<open>id-\<close>, \<^verbatim>\<open>id-i\<close>, \<^verbatim>\<open>id-ii\<close>, ...\<close>

definition env_of :: "jsval \<Rightarrow> env" where
  "env_of doc =
     \<lparr>hasItem = Inr True,
      getItem = Inr (Some ''services: []''),
      yaml_parse = (\<lambda>text. Inr doc),
      randomUUID = (\<lambda>n. ''id-'' @ replicate n CHR ''i''),
      numberToString = (\<lambda>n. ''0'')\<rparr>"

text \<open>A load whose storage throws a string.\<close>

definition env_throwing :: env where
  "env_throwing = (env_of JNull)\<lparr>hasItem := Inl (NonError (JStr ''unreachable''))\<rparr>"

section \<open>Relations and examples used in the statements\<close>

text \<open>\<open>restriction_of a b\<close>: \<open>a\<close> is \<open>b\<close> with fields of objects taken away and
  nothing else changed. Every field of an object of \<open>a\<close> is a field of the object of
  \<open>b\<close> at the same place, arrays have the same length, and every other value is the
  same.\<close>

fun restriction_of :: "jsval \<Rightarrow> jsval \<Rightarrow> bool" where
  "restriction_of (JObj kvs') v =
     (case v of
        JObj kvs \<Rightarrow>
          list_all (\<lambda>(k, x'). list_ex (\<lambda>(k2, x). k2 = k \<and> restriction_of x' x) kvs) kvs'
      | _ \<Rightarrow> False)"
| "restriction_of (JArr xs') v =
     (case v of JArr xs \<Rightarrow> list_all2 restriction_of xs' xs | _ \<Rightarrow> False)"
| "restriction_of a v = (a = v)"

text \<open>A document with a field that the schema does not name.\<close>

definition doc_with_behaviour :: jsval where
  "doc_with_behaviour =
     JObj [(''services'', JArr []), (''behaviour'', JObj [(''target'', JStr ''_self'')])]"

text \<open>
  \<open>stripped s v out\<close>: \<open>out\<close> is the value \<open>v\<close> with exactly the fields taken away that
  the schema \<open>s\<close> does not name, and nothing else changed. Where the schema describes an
  object by its fields, the keys of \<open>out\<close> are the keys of \<open>v\<close> that the schema names,
  and the value of each is the stripped value of the same key of \<open>v\<close>; where the schema
  describes a record, the keys of \<open>out\<close> are all the keys of \<open>v\<close>; the one key that is
  never kept is \<^verbatim>\<open>__proto__\<close>. A sequence keeps its length and its order, every
  element stripped; a value that the schema describes as a string, a number, a boolean
  or anything is the same in \<open>out\<close>. The relation does not say in which order \<open>out\<close>
  lists its keys.
\<close>

fun stripped :: "zod \<Rightarrow> jsval \<Rightarrow> jsval \<Rightarrow> bool" where
  "stripped (ZOptional s) v out = (if v = JUndefined then out = JUndefined else stripped s v out)"
| "stripped (ZNullable s) v out = (if v = JNull then out = JNull else stripped s v out)"
| "stripped (ZArray s) v out =
     (case (v, out) of
        (JArr xs, JArr ys) \<Rightarrow> list_all2 (stripped s) xs ys
      | _ \<Rightarrow> False)"
| "stripped (ZRecord s) v out =
     (case (v, out) of
        (JObj kvs, JObj kvs') \<Rightarrow>
          distinct (map fst kvs')
          \<and> set (map fst kvs') = set (filter (\<lambda>k. k \<noteq> ''__proto__'') (map fst kvs))
          \<and> list_all (\<lambda>(k, x). stripped s (js_get v k) x) kvs'
      | _ \<Rightarrow> False)"
| "stripped (ZObject shape) v out =
     (case (v, out) of
        (JObj kvs, JObj kvs') \<Rightarrow>
          distinct (map fst kvs')
          \<and> set (map fst kvs')
              = set (filter (\<lambda>k. k \<in> set (map fst shape) \<and> k \<noteq> ''__proto__'') (map fst kvs))
          \<and> list_all (\<lambda>(k, x). list_ex (\<lambda>(k', s). k' = k \<and> stripped s (js_get v k) x) shape) kvs'
      | _ \<Rightarrow> False)"
| "stripped (ZUnion options) v out = list_ex (\<lambda>s. stripped s v out) options"
| "stripped s v out = (out = v)"

text \<open>\<open>same_value a v\<close>: the two values have the same fields with the same values, at
  every depth; only the order in which an object lists its fields may differ.
  \<open>all_named s v\<close>: every field of \<open>v\<close>, at every depth, is a field that the schema
  \<open>s\<close> names or an entry of a record, and no key is \<^verbatim>\<open>__proto__\<close>.\<close>

fun same_value :: "jsval \<Rightarrow> jsval \<Rightarrow> bool" where
  "same_value (JObj kvs) v =
     (case v of
        JObj kvs' \<Rightarrow>
          set (map fst kvs) = set (map fst kvs')
          \<and> list_all (\<lambda>(k, x). same_value x (js_get v k)) kvs
      | _ \<Rightarrow> False)"
| "same_value (JArr xs) v = (case v of JArr ys \<Rightarrow> list_all2 same_value xs ys | _ \<Rightarrow> False)"
| "same_value a v = (a = v)"

fun all_named :: "zod \<Rightarrow> jsval \<Rightarrow> bool" where
  "all_named (ZOptional s) v = (v = JUndefined \<or> all_named s v)"
| "all_named (ZNullable s) v = (v = JNull \<or> all_named s v)"
| "all_named (ZArray s) v = (case v of JArr xs \<Rightarrow> list_all (all_named s) xs | _ \<Rightarrow> True)"
| "all_named (ZRecord s) v =
     (case v of
        JObj kvs \<Rightarrow> list_all (\<lambda>(k, x). k \<noteq> ''__proto__'' \<and> all_named s x) kvs
      | _ \<Rightarrow> True)"
| "all_named (ZObject shape) v =
     (case v of
        JObj kvs \<Rightarrow>
          list_all (\<lambda>(k, x). k \<noteq> ''__proto__'' \<and> k \<in> set (map fst shape)
                      \<and> list_all (\<lambda>(k', s). k' = k \<longrightarrow> all_named s x) shape) kvs
      | _ \<Rightarrow> True)"
| "all_named (ZUnion options) v = list_all (\<lambda>s. all_named s v) options"
| "all_named s v = True"

text \<open>A document all of whose fields are named by the schema, and the value that the
  validator returns for it.\<close>

definition doc_all_named :: jsval where
  "doc_all_named =
     JObj [(''services'', JArr [JObj [(''title'', JStr ''Git'')]]),
           (''title'', JStr ''Home'')]"

definition validated_all_named :: jsval where
  "validated_all_named =
     JObj [(''title'', JStr ''Home''),
           (''services'', JArr [JObj [(''title'', JStr ''Git'')]])]"

text \<open>A document with fields that the schema does not name, at the top and inside a
  service, and with an entry in the \<^verbatim>\<open>options\<close> of the service; and the value that
  the validator returns for it.\<close>

definition doc_nested :: jsval where
  "doc_nested =
     JObj [(''behaviour'', JObj [(''target'', JStr ''_self'')]),
           (''services'',
              JArr [JObj [(''title'', JStr ''Git''),
                          (''tags'', JArr [JStr ''x'']),
                          (''options'', JObj [(''limit'', JNum (Finite 5))])]])]"

definition validated_nested :: jsval where
  "validated_nested =
     JObj [(''services'',
              JArr [JObj [(''title'', JStr ''Git''),
                          (''options'', JObj [(''limit'', JNum (Finite 5))])]])]"

text \<open>The declaration that wins for a name: the last one in the list of declared
  tags.\<close>

definition last_declared :: "jsval list \<Rightarrow> string \<Rightarrow> jsval option" where
  "last_declared declared name = find (\<lambda>t. js_get t ''name'' = JStr name) (rev declared)"

text \<open>Two declarations of the tag \<^verbatim>\<open>x\<close>.\<close>

definition declared_twice :: "jsval list" where
  "declared_twice =
     [JObj [(''name'', JStr ''x''), (''color'', JStr ''red'')],
      JObj [(''name'', JStr ''x''), (''color'', JStr ''green'')]]"

text \<open>A value of JavaScript lists each key of an object once.\<close>

fun well_formed :: "jsval \<Rightarrow> bool" where
  "well_formed (JObj kvs) = (distinct (map fst kvs) \<and> list_all (\<lambda>(k, v). well_formed v) kvs)"
| "well_formed (JArr xs) = list_all well_formed xs"
| "well_formed v = True"

text \<open>What the merge skips: values that are \<^verbatim>\<open>null\<close> or \<^verbatim>\<open>undefined\<close>, and two
  keys.\<close>

definition nullish_value :: "jsval \<Rightarrow> bool" where
  "nullish_value v = (v = JNull \<or> v = JUndefined)"

definition skipped_key :: "string \<Rightarrow> bool" where
  "skipped_key k = (k = ''__proto__'' \<or> k = ''constructor'')"

text \<open>The value that the merge stores for a key: the object's value \<open>val\<close> over the
  default's value \<open>d\<close>.\<close>

definition merged_value :: "jsval \<Rightarrow> jsval \<Rightarrow> jsval" where
  "merged_value val d =
     (case val of
        JArr xs \<Rightarrow> (case d of JArr ys \<Rightarrow> JArr (xs @ ys) | _ \<Rightarrow> val)
      | JObj b \<Rightarrow> (case d of JObj d' \<Rightarrow> JObj (defu_props b d') | _ \<Rightarrow> val)
      | _ \<Rightarrow> val)"




text \<open>The copy that the specification of \<^verbatim>\<open>extractSafelyConfig\<close> describes: every
  field named \<^verbatim>\<open>secrets\<close>, at any depth, is left out, and everything else is as it
  was.\<close>

fun remove_secrets_spec :: "jsval \<Rightarrow> jsval"
  and remove_secrets_props :: "props \<Rightarrow> props"
  and remove_secrets_items :: "jsval list \<Rightarrow> jsval list"
where
  "remove_secrets_spec (JObj kvs) = JObj (remove_secrets_props kvs)"
| "remove_secrets_spec (JArr xs) = JArr (remove_secrets_items xs)"
| "remove_secrets_spec JUndefined = JUndefined"
| "remove_secrets_spec JNull = JNull"
| "remove_secrets_spec (JBool b) = JBool b"
| "remove_secrets_spec (JNum n) = JNum n"
| "remove_secrets_spec (JStr s) = JStr s"
| "remove_secrets_props [] = []"
| "remove_secrets_props ((k, v) # kvs) =
     (if k = ''secrets'' then remove_secrets_props kvs
      else (k, remove_secrets_spec v) # remove_secrets_props kvs)"
| "remove_secrets_items [] = []"
| "remove_secrets_items (x # xs) = remove_secrets_spec x # remove_secrets_items xs"

text \<open>The values that a JSON text can denote: no \<^verbatim>\<open>undefined\<close>, every number
  finite.\<close>

fun json_value :: "jsval \<Rightarrow> bool" where
  "json_value JUndefined = False"
| "json_value (JNum n) = is_finite n"
| "json_value (JArr xs) = list_all json_value xs"
| "json_value (JObj kvs) = list_all (\<lambda>(k, v). json_value v) kvs"
| "json_value v = True"

text \<open>Some object inside the value has a field of the given name.\<close>

fun has_field :: "string \<Rightarrow> jsval \<Rightarrow> bool" where
  "has_field name (JObj kvs) = list_ex (\<lambda>(k, v). k = name \<or> has_field name v) kvs"
| "has_field name (JArr xs) = list_ex (has_field name) xs"
| "has_field name v = False"

text \<open>Two configurations with one service: its \<^verbatim>\<open>options\<close> hold \<^verbatim>\<open>Infinity\<close> in
  the first, and a number and a nested \<^verbatim>\<open>secrets\<close> field in the second.\<close>

definition config_with_infinity :: jsval where
  "config_with_infinity =
     JObj [(''title'', JStr ''Mafl Home Page''),
           (''lang'', JStr ''en''),
           (''theme'', JStr ''system''),
           (''checkUpdates'', JBool True),
           (''behaviour'', JObj [(''target'', JStr ''_blank'')]),
           (''tags'', JArr []),
           (''services'',
              JArr [JObj [(''items'',
                JArr [JObj [(''options'', JObj [(''limit'', JNum PosInf)]),
                            (''secrets'', JObj [(''token'', JStr ''t'')]),
                            (''id'', JStr ''id-0''),
                            (''tags'', JArr [])]])]])]"

definition config_with_secrets :: jsval where
  "config_with_secrets =
     JObj [(''title'', JStr ''Mafl Home Page''),
           (''lang'', JStr ''en''),
           (''theme'', JStr ''system''),
           (''checkUpdates'', JBool True),
           (''behaviour'', JObj [(''target'', JStr ''_blank'')]),
           (''tags'', JArr []),
           (''services'',
              JArr [JObj [(''items'',
                JArr [JObj [(''options'', JObj [(''limit'', JNum (Finite 5)),
                                                (''secrets'', JStr ''s'')]),
                            (''secrets'', JObj [(''token'', JStr ''t'')]),
                            (''id'', JStr ''id-0''),
                            (''tags'', JArr [])]])]])]"

text \<open>The identifiers of the services of a configuration, group by group.\<close>

definition group_ids :: "jsval \<Rightarrow> jsval list" where
  "group_ids g =
     (case js_get g ''items'' of
        JArr items \<Rightarrow> map (\<lambda>service. js_get service ''id'') items
      | _ \<Rightarrow> [])"

definition service_ids :: "jsval \<Rightarrow> jsval list" where
  "service_ids config =
     (case js_get config ''services'' of
        JArr groups \<Rightarrow> concat (map group_ids groups)
      | _ \<Rightarrow> [])"

text \<open>A document with two groups, and the configuration that it loads to.\<close>

definition doc_two_groups :: jsval where
  "doc_two_groups =
     JObj [(''services'',
             JObj [(''Dev'', JArr [JObj [(''title'', JStr ''Git'')], JObj []]),
                   (''Home'', JArr [JObj [(''tags'', JArr [JStr ''x''])]])])]"

definition config_two_groups :: jsval where
  "config_two_groups =
     JObj [(''title'', JStr ''Mafl Home Page''),
           (''lang'', JStr ''en''),
           (''theme'', JStr ''system''),
           (''checkUpdates'', JBool True),
           (''behaviour'', JObj [(''target'', JStr ''_blank'')]),
           (''tags'', JArr []),
           (''services'',
              JArr [JObj [(''title'', JStr ''Dev''),
                          (''items'',
                             JArr [JObj [(''title'', JStr ''Git''), (''id'', JStr ''id-''),
                                         (''tags'', JArr [])],
                                   JObj [(''id'', JStr ''id-i''), (''tags'', JArr [])]])],
                    JObj [(''title'', JStr ''Home''),
                          (''items'',
                             JArr [JObj [(''tags'',
                                           JArr [JObj [(''name'', JStr ''x''),
                                                       (''color'', JStr ''blue'')]]),
                                         (''id'', JStr ''id-ii'')]])]])]"

text \<open>A service whose \<^verbatim>\<open>tags\<close> field is absent, falsy or a sequence: the only
  services that \<^verbatim>\<open>determineService\<close> can map.\<close>

definition tags_ok :: "jsval \<Rightarrow> bool" where
  "tags_ok item = (case js_or (js_get item ''tags'') (JArr []) of JArr refs \<Rightarrow> True | _ \<Rightarrow> False)"

definition services_tags_ok :: "jsval \<Rightarrow> bool" where
  "services_tags_ok services =
     (case services of
        JArr xs \<Rightarrow> list_all tags_ok xs
      | JObj kvs \<Rightarrow>
          list_all (\<lambda>(title, items). case items of JArr xs \<Rightarrow> list_all tags_ok xs | _ \<Rightarrow> True) kvs
      | _ \<Rightarrow> True)"

text \<open>The normalized services and groups that the specification describes: a service
  keeps its fields and gets its identifier and its resolved tags; a sequence is
  normalized service by service; a mapping gives one group per entry, in order, with the
  key as title and the normalized sequence as items.\<close>

definition normalized_spec :: "TagMap \<Rightarrow> string \<Rightarrow> jsval \<Rightarrow> jsval" where
  "normalized_spec tags uuid item =
     JObj (obj_set ''tags''
             (JArr (map (resolve_tag tags)
                      (case js_or (js_get item ''tags'') (JArr []) of
                         JArr refs \<Rightarrow> refs
                       | _ \<Rightarrow> [])))
             (obj_set ''id'' (JStr uuid) (own_props item)))"

fun normalized_list_spec :: "(nat \<Rightarrow> string) \<Rightarrow> TagMap \<Rightarrow> nat \<Rightarrow> jsval list \<Rightarrow> jsval list" where
  "normalized_list_spec uuid tags n [] = []"
| "normalized_list_spec uuid tags n (item # items) =
     normalized_spec tags (uuid n) item # normalized_list_spec uuid tags (Suc n) items"

definition elements :: "jsval \<Rightarrow> jsval list" where
  "elements v = (case v of JArr xs \<Rightarrow> xs | _ \<Rightarrow> [])"

fun groups_spec :: "(nat \<Rightarrow> string) \<Rightarrow> TagMap \<Rightarrow> nat \<Rightarrow> props \<Rightarrow> jsval list" where
  "groups_spec uuid tags n [] = []"
| "groups_spec uuid tags n ((title, items) # entries) =
     JObj [(''title'', JStr title),
           (''items'', JArr (normalized_list_spec uuid tags n (elements items)))]
       # groups_spec uuid tags (n + length (elements items)) entries"

text \<open>A document that the schema accepts, with a service whose \<^verbatim>\<open>tags\<close> field is a
  string.\<close>

definition doc_bad_tags :: jsval where
  "doc_bad_tags = JObj [(''services'', JArr [JObj [(''tags'', JStr ''x'')]])]"

text \<open>
  Keys that collide with the error report. \<^verbatim>\<open>format\<close> keeps the reasons of a node
  under the key \<^verbatim>\<open>_errors\<close> and reaches the children of a node by ordinary property
  access, which also finds the members that every object inherits. A path element with
  one of these names does not lead to a fresh child node; the statements about the
  error report are made for paths without them. Only the keys of a \<^verbatim>\<open>services\<close>
  mapping can bring such a name into a path: every other path element is a field name
  of the schema or an array index.
\<close>

definition ordinary_key :: "string \<Rightarrow> bool" where
  "ordinary_key k \<longleftrightarrow>
     k \<notin> set [''_errors'', ''__proto__'', ''constructor'', ''hasOwnProperty'',
                ''isPrototypeOf'', ''propertyIsEnumerable'', ''toLocaleString'', ''toString'',
                ''valueOf'', ''__defineGetter__'', ''__defineSetter__'', ''__lookupGetter__'',
                ''__lookupSetter__'']"

text \<open>A node of the report: an object with its list of reasons (strings) under
  \<^verbatim>\<open>_errors\<close>, every other field a node; each key is listed once.\<close>

definition is_reasons :: "jsval \<Rightarrow> bool" where
  "is_reasons v =
     (case v of
        JArr es \<Rightarrow> list_all (\<lambda>e. case e of JStr message \<Rightarrow> True | _ \<Rightarrow> False) es
      | _ \<Rightarrow> False)"

fun is_node :: "jsval \<Rightarrow> bool" where
  "is_node (JObj kvs) =
     (distinct (map fst kvs) \<and> map_of kvs ''_errors'' \<noteq> None
      \<and> list_all (\<lambda>(k, v). if k = ''_errors'' then is_reasons v else is_node v) kvs)"
| "is_node v = False"

text \<open>No object inside the value has a field \<^verbatim>\<open>_errors\<close> that is an empty list.\<close>

fun no_empty_errors :: "jsval \<Rightarrow> bool" where
  "no_empty_errors (JObj kvs) =
     list_all (\<lambda>(k, v). \<not> (k = ''_errors'' \<and> v = JArr []) \<and> no_empty_errors v) kvs"
| "no_empty_errors (JArr xs) = list_all no_empty_errors xs"
| "no_empty_errors v = True"

text \<open>Issues all of whose paths consist of ordinary keys.\<close>

fun clean_issue :: "issue \<Rightarrow> bool" where
  "clean_issue (invalid_type path ty received) = list_all ordinary_key path"
| "clean_issue (invalid_union path unionErrors) = list_all (list_all clean_issue) unionErrors"

text \<open>The report with its empty lists of reasons pruned: every field \<^verbatim>\<open>_errors\<close>
  that is an empty list is left out of its object, and nothing else changes.\<close>

fun prune_spec :: "jsval \<Rightarrow> jsval"
  and prune_props :: "props \<Rightarrow> props"
where
  "prune_spec (JObj kvs) = JObj (prune_props kvs)"
| "prune_spec v = v"
| "prune_props [] = []"
| "prune_props ((k, v) # kvs) =
     (if k = ''_errors'' \<and> v = JArr [] then prune_props kvs
      else (k, prune_spec v) # prune_props kvs)"

text \<open>Schemas whose issues have paths of field names and array indices only: every
  field name is an ordinary key, and the only records are records of anything, which
  report no issue of their entries.\<close>

fun fixed_paths :: "zod \<Rightarrow> bool" where
  "fixed_paths (ZOptional s) = fixed_paths s"
| "fixed_paths (ZNullable s) = fixed_paths s"
| "fixed_paths (ZArray s) = fixed_paths s"
| "fixed_paths (ZRecord s) = (s = ZAny)"
| "fixed_paths (ZObject shape) = (\<forall>(k, s) \<in> set shape. ordinary_key k \<and> fixed_paths s)"
| "fixed_paths (ZUnion options) = (\<forall>s \<in> set options. fixed_paths s)"
| "fixed_paths s = True"

text \<open>The keys of a \<^verbatim>\<open>services\<close> mapping are ordinary keys.\<close>

definition group_titles_ordinary :: "jsval \<Rightarrow> bool" where
  "group_titles_ordinary config =
     (case js_get config ''services'' of
        JObj groups \<Rightarrow> list_all (\<lambda>(title, items). ordinary_key title) groups
      | _ \<Rightarrow> True)"

text \<open>The value at a path of a report, and the reasons listed there (none when
  there is no such list).\<close>

fun node_at :: "jsval \<Rightarrow> string list \<Rightarrow> jsval" where
  "node_at t [] = t"
| "node_at t (k # p) = node_at (js_get t k) p"

definition reasons_at :: "jsval \<Rightarrow> string list \<Rightarrow> jsval list" where
  "reasons_at t p = (case js_get (node_at t p) ''_errors'' of JArr es \<Rightarrow> es | _ \<Rightarrow> [])"

text \<open>The failure reasons of a list of issues, each with its field path: every issue
  that is not a union gives its message at its path, and a union gives the reasons of
  the issues of its options. \<open>reasons_of issues p\<close> are the reasons at the path \<open>p\<close>, in
  the order of the issues.\<close>

fun failure_reasons :: "issue list \<Rightarrow> (string list \<times> string) list"
  and union_reasons :: "issue list list \<Rightarrow> (string list \<times> string) list"
where
  "failure_reasons [] = []"
| "failure_reasons (invalid_type path ty received # issues) =
     (path, issue_message (invalid_type path ty received)) # failure_reasons issues"
| "failure_reasons (invalid_union path unionErrors # issues) =
     union_reasons unionErrors @ failure_reasons issues"
| "union_reasons [] = []"
| "union_reasons (error # errors) = failure_reasons error @ union_reasons errors"

definition reasons_of :: "issue list \<Rightarrow> string list \<Rightarrow> jsval list" where
  "reasons_of issues p =
     map (\<lambda>(path, message). JStr message)
       (filter (\<lambda>(path, message). path = p) (failure_reasons issues))"

definition union_reasons_of :: "issue list list \<Rightarrow> string list \<Rightarrow> jsval list" where
  "union_reasons_of errors p =
     map (\<lambda>(path, message). JStr message)
       (filter (\<lambda>(path, message). path = p) (union_reasons errors))"

text \<open>
  The object that a mapping of the document becomes. The YAML parser creates an empty
  object and assigns the entries of the mapping in the order in which the document
  declares them (a key that is declared twice is refused by the parser). The engine
  enumerates the keys of the result that are array indices first, in ascending order,
  and the other keys after them in the order of their creation: \<open>enumeration_of entries
  kvs\<close> says that \<open>kvs\<close> lists the declared \<open>entries\<close> in this way.
\<close>

definition declared_object :: "props \<Rightarrow> props" where
  "declared_object entries = foldl (\<lambda>object (k, v). obj_set k v object) [] entries"

definition is_index :: "string \<times> jsval \<Rightarrow> bool" where
  "is_index kv = (array_index (fst kv) \<noteq> None)"

definition index_of :: "string \<times> jsval \<Rightarrow> nat" where
  "index_of kv = (case array_index (fst kv) of Some i \<Rightarrow> i | None \<Rightarrow> 0)"

definition enumeration_of :: "props \<Rightarrow> props \<Rightarrow> bool" where
  "enumeration_of entries kvs \<longleftrightarrow>
     kvs = filter is_index kvs @ filter (\<lambda>kv. \<not> is_index kv) entries
     \<and> sorted (map index_of (filter is_index kvs))
     \<and> set (filter is_index kvs) = set (filter is_index entries)"

text \<open>A document whose \<^verbatim>\<open>services\<close> mapping declares the groups \<^verbatim>\<open>b\<close>, \<^verbatim>\<open>10\<close>
  and \<^verbatim>\<open>2\<close>, in this order, and the configuration that the load returns for it.\<close>

definition doc_numbered_groups :: jsval where
  "doc_numbered_groups =
     JObj [(''services'',
            JObj (declared_object [(''b'', JArr []), (''10'', JArr []), (''2'', JArr [])]))]"

definition config_numbered_groups :: jsval where
  "config_numbered_groups =
     JObj [(''title'', JStr ''Mafl Home Page''),
           (''lang'', JStr ''en''),
           (''theme'', JStr ''system''),
           (''checkUpdates'', JBool True),
           (''behaviour'', JObj [(''target'', JStr ''_blank'')]),
           (''tags'', JArr []),
           (''services'',
              JArr [JObj [(''title'', JStr ''2''), (''items'', JArr [])],
                    JObj [(''title'', JStr ''10''), (''items'', JArr [])],
                    JObj [(''title'', JStr ''b''), (''items'', JArr [])]])]"

text \<open>A document that the schema rejects: its \<^verbatim>\<open>title\<close> is a number and the group
  \<^verbatim>\<open>Home\<close> of its \<^verbatim>\<open>services\<close> is a string. Its issues, and the report of the
  failure reasons.\<close>

definition doc_bad_types :: jsval where
  "doc_bad_types =
     JObj [(''title'', JNum (Finite 5)),
           (''services'', JObj [(''Home'', JStr ''x'')])]"

definition issues_bad_types :: "issue list" where
  "issues_bad_types =
     [invalid_type [''title''] ''string'' ''number'',
      invalid_union [''services'']
        [[invalid_type [''services''] ''array'' ''object''],
         [invalid_type [''services'', ''Home''] ''array'' ''string'']]]"

definition report_bad_types :: jsval where
  "report_bad_types =
     JObj [(''title'', JObj [(''_errors'', JArr [JStr ''Expected string, received number''])]),
           (''services'',
              JObj [(''_errors'', JArr [JStr ''Expected array, received object'']),
                    (''Home'',
                       JObj [(''_errors'', JArr [JStr ''Expected array, received string''])])])]"



definition doc_errors_title :: jsval where
  "doc_errors_title = JObj [(''services'', JObj [(''_errors'', JNum (Finite 5))])]"

section \<open>Properties of objects\<close>

lemma map_of_insert_index:
  "map_of kvs k = None \<Longrightarrow> map_of (insert_index i k v kvs) = (map_of kvs)(k \<mapsto> v)"
  by (induction kvs) (auto split: option.splits if_splits simp: fun_upd_twist)

lemma map_of_obj_set: "map_of (obj_set k v kvs) = (map_of kvs)(k \<mapsto> v)"
proof (cases "map_of kvs k")
  case None
  have "map_of (kvs @ [(k, v)]) = (map_of kvs)(k \<mapsto> v)"
    using None by (auto simp: map_add_def fun_eq_iff split: option.splits)
  with None show ?thesis
    by (simp add: obj_set_def map_of_insert_index split: option.splits)
next
  case (Some y)
  then show ?thesis by (simp add: obj_set_def update_conv')
qed

lemma set_insert_index: "set (insert_index i k v kvs) = insert (k, v) (set kvs)"
  by (induction kvs) (auto split: option.splits if_splits)

lemma set_alist_update: "set (AList.update k v al) \<subseteq> insert (k, v) (set al)"
  by (induction al) auto

lemma set_obj_set: "set (obj_set k v kvs) \<subseteq> insert (k, v) (set kvs)"
  using set_alist_update [of k v kvs]
  by (auto simp: obj_set_def set_insert_index split: option.splits)

lemma js_get_obj_set:
  "js_get (JObj (obj_set k v kvs)) k' = (if k' = k then v else js_get (JObj kvs) k')"
  by (simp add: map_of_obj_set)

lemma keys_insert_index: "fst ` set (insert_index i k v kvs) = insert k (fst ` set kvs)"
  by (simp add: set_insert_index)

lemma distinct_insert_index:
  "k \<notin> set (map fst kvs) \<Longrightarrow> distinct (map fst kvs) \<Longrightarrow>
   distinct (map fst (insert_index i k v kvs))"
  by (induction kvs) (auto split: option.splits simp: keys_insert_index)

lemma distinct_obj_set:
  "distinct (map fst kvs) \<Longrightarrow> distinct (map fst (obj_set k v kvs))"
  by (auto simp: obj_set_def distinct_update distinct_insert_index map_of_eq_None_iff
      split: option.splits)

section \<open>Properties of the validator\<close>

lemma parse_shape_snd:
  "snd (parse_shape shape p v) =
     map (\<lambda>(k, s). (k, snd (parse s (p @ [k]) (js_get v k)), has_key v k)) shape"
  by (induction shape) (auto split: prod.splits)

lemma parse_shape_fst:
  "fst (parse_shape shape p v) =
     concat (map (\<lambda>(k, s). fst (parse s (p @ [k]) (js_get v k))) shape)"
  by (induction shape) (auto split: prod.splits)

lemma parse_object:
  "parse (ZObject shape) p (JObj kvs) =
     (fst (parse_shape shape p (JObj kvs)),
      mergeObjectSync (snd (parse_shape shape p (JObj kvs))) [])"
  by (simp split: prod.splits)

lemma parse_not_object:
  "\<forall>kvs. v \<noteq> JObj kvs \<Longrightarrow> snd (parse (ZObject shape) p v) = None"
  by (cases v) simp_all

lemma mergeObjectSync_accepts:
  "mergeObjectSync pairs acc \<noteq> None \<longleftrightarrow> list_all (\<lambda>(k, r, a). r \<noteq> None) pairs"
  by (induction pairs acc rule: mergeObjectSync.induct) auto

lemma parse_object_accepts:
  "snd (parse (ZObject shape) p (JObj kvs)) \<noteq> None \<longleftrightarrow>
     list_all (\<lambda>(k, s). snd (parse s (p @ [k]) (js_get (JObj kvs) k)) \<noteq> None) shape"
  unfolding parse_object snd_conv mergeObjectSync_accepts parse_shape_snd
  by (simp add: list.pred_map comp_def case_prod_unfold del: parse.simps js_get.simps)

lemma validate_accepts_iff:
  "(\<exists>out. validateConfigSchema config = Inr out) \<longleftrightarrow> snd (parse schema [] config) \<noteq> None"
  by (auto simp: validateConfigSchema_def split: prod.splits option.splits)

lemma validate_rejects_iff:
  "(\<exists>issues. validateConfigSchema config = Inl (ZodError issues)) \<longleftrightarrow>
     snd (parse schema [] config) = None"
  by (auto simp: validateConfigSchema_def split: prod.splits option.splits)

text \<open>The top-level schema accepts an object exactly when it accepts each of its six
  fields.\<close>

lemma schema_accepts:
  "snd (parse schema [] (JObj kvs)) \<noteq> None \<longleftrightarrow>
      snd (parse (ZOptional ZString) [''title''] (js_get (JObj kvs) ''title'')) \<noteq> None
    \<and> snd (parse (ZOptional ZString) [''lang''] (js_get (JObj kvs) ''lang'')) \<noteq> None
    \<and> snd (parse (ZOptional ZString) [''theme''] (js_get (JObj kvs) ''theme'')) \<noteq> None
    \<and> snd (parse (ZOptional ZBoolean) [''checkUpdates'']
              (js_get (JObj kvs) ''checkUpdates'')) \<noteq> None
    \<and> snd (parse (ZOptional (ZArray tag_schema)) [''tags''] (js_get (JObj kvs) ''tags'')) \<noteq> None
    \<and> snd (parse (ZUnion [ZArray service_schema, ZRecord (ZArray service_schema)])
              [''services''] (js_get (JObj kvs) ''services'')) \<noteq> None"
  unfolding schema_def parse_object_accepts by (simp del: parse.simps js_get.simps)

lemma restriction_of_refl: "restriction_of v v"
proof (induction v)
  case (JObj kvs)
  then show ?case by (fastforce simp: list_all_iff list_ex_iff)
qed (auto simp: list_all2_same)

lemma restriction_of_undefined: "restriction_of x JUndefined \<Longrightarrow> x = JUndefined"
  by (cases x) auto

lemma length_indexed: "length (indexed i xs) = length xs"
  by (induction xs arbitrary: i) auto

lemma nth_indexed: "j < length xs \<Longrightarrow> indexed i xs ! j = (show_nat (i + j), xs ! j)"
  by (induction xs arbitrary: i j) (auto simp: nth_Cons split: nat.splits)

lemma mergeArray_Some: "mergeArray rs = Some outs \<Longrightarrow> rs = map Some outs"
  by (induction rs arbitrary: outs rule: mergeArray.induct) auto

lemma mergeObjectSync_set:
  "mergeObjectSync pairs acc = Some (JObj kvs') \<Longrightarrow> (k, x') \<in> set kvs' \<Longrightarrow>
   (k, x') \<in> set acc \<or> (\<exists>a. (k, Some x', a) \<in> set pairs \<and> (x' \<noteq> JUndefined \<or> a))"
proof (induction pairs acc rule: mergeObjectSync.induct)
  case (3 k0 v a pairs finalObject)
  then show ?case
    using set_obj_set [of k0 v finalObject] by (auto split: if_splits)
qed auto

lemma mergeObjectSync_obj:
  "mergeObjectSync pairs acc = Some out \<Longrightarrow> \<exists>kvs'. out = JObj kvs'"
  by (induction pairs acc rule: mergeObjectSync.induct) auto

lemma parse_restriction:
  "snd (parse s p v) = Some out \<Longrightarrow> restriction_of out v"
  "(k, Some x', a) \<in> set (snd (parse_shape shape p v)) \<Longrightarrow> restriction_of x' (js_get v k)"
  "snd (parse_options opts p v errs) = Some out \<Longrightarrow> restriction_of out v"
proof (induction s p v and shape p v and opts p v errs arbitrary: out and k x' a and out
    rule: parse_parse_shape_parse_options.induct)
  case (7 s path v)
  from "7.prems" obtain xs where v: "v = JArr xs"
    by (cases v) auto
  define rs where "rs = map (\<lambda>(i, x). parse s (path @ [i]) x) (indexed 0 xs)"
  from "7.prems" obtain outs where out: "out = JArr outs"
    and m: "mergeArray (map snd rs) = Some outs"
    by (auto simp: v rs_def)
  from mergeArray_Some [OF m] have rs: "map snd rs = map Some outs" .
  then have len: "length outs = length xs"
    by (metis length_map rs_def length_indexed)
  have "restriction_of (outs ! j) (xs ! j)" if j: "j < length xs" for j
  proof -
    have "snd (rs ! j) = Some (outs ! j)"
      using rs j len by (metis length_map nth_map)
    then have "snd (parse s (path @ [show_nat j]) (xs ! j)) = Some (outs ! j)"
      using j by (simp add: rs_def length_indexed nth_indexed)
    moreover have "(show_nat j, xs ! j) \<in> set (indexed 0 xs)"
      using j nth_indexed [of j xs 0] by (metis add_0 length_indexed nth_mem)
    ultimately show ?thesis
      using "7.IH" [OF v _ refl] by blast
  qed
  then show ?case
    by (simp add: out v list_all2_conv_all_nth len)
next
  case (8 s path v)
  from "8.prems" obtain kvs where v: "v = JObj kvs"
    by (cases v) auto
  define pairs where
    "pairs = map (\<lambda>(k, r). (k, snd r, True)) (map (\<lambda>(k, x). (k, parse s (path @ [k]) x)) kvs)"
  from "8.prems" have "mergeObjectSync pairs [] = Some out"
    by (simp add: v pairs_def)
  moreover from this obtain kvs' where out: "out = JObj kvs'"
    using mergeObjectSync_obj by blast
  ultimately have m: "mergeObjectSync pairs [] = Some (JObj kvs')" by simp
  have "\<exists>x. (k, x) \<in> set kvs \<and> restriction_of x' x" if "(k, x') \<in> set kvs'" for k x'
  proof -
    from mergeObjectSync_set [OF m that] obtain a where "(k, Some x', a) \<in> set pairs"
      by auto
    then obtain x where x: "(k, x) \<in> set kvs" and "snd (parse s (path @ [k]) x) = Some x'"
      by (auto simp: pairs_def)
    with "8.IH" [OF v x refl] show ?thesis by blast
  qed
  then show ?case
    by (fastforce simp: out v list_all_iff list_ex_iff)
next
  case (9 shape path v)
  from "9.prems" obtain kvs where v: "v = JObj kvs"
    by (cases v) auto
  define pairs where "pairs = snd (parse_shape shape path v)"
  from "9.prems" have m0: "mergeObjectSync pairs [] = Some out"
    by (simp add: v pairs_def split: prod.splits)
  then obtain kvs' where out: "out = JObj kvs'"
    using mergeObjectSync_obj by blast
  have "\<exists>x. (k, x) \<in> set kvs \<and> restriction_of x' x" if "(k, x') \<in> set kvs'" for k x'
  proof -
    from mergeObjectSync_set [OF m0 [unfolded out] that]
    obtain a where pair: "(k, Some x', a) \<in> set pairs" and set: "x' \<noteq> JUndefined \<or> a"
      by auto
    from pair have r: "restriction_of x' (js_get v k)"
      using "9.IH" [OF v] by (simp add: pairs_def)
    from pair have a: "a = has_key v k"
      by (auto simp: pairs_def parse_shape_snd)
    show ?thesis
    proof (cases "map_of kvs k")
      case None
      with r have "x' = JUndefined" by (simp add: v restriction_of_undefined)
      with set a None show ?thesis by (simp add: v has_key_def)
    next
      case (Some x)
      with r show ?thesis by (auto simp: v dest: map_of_SomeD)
    qed
  qed
  then show ?case
    by (fastforce simp: out v list_all_iff list_ex_iff)
qed (auto simp: expect_def restriction_of_refl split: if_splits prod.splits option.splits)


lemma mergeObjectSync_has:
  "mergeObjectSync pairs acc = Some (JObj kvs) \<Longrightarrow>
   map_of kvs k \<noteq> None \<longleftrightarrow>
     map_of acc k \<noteq> None
     \<or> (\<exists>v a. (k, Some v, a) \<in> set pairs \<and> k \<noteq> ''__proto__'' \<and> (v \<noteq> JUndefined \<or> a))"
  by (induction pairs acc rule: mergeObjectSync.induct) (auto simp: map_of_obj_set)

lemma object_keys:
  assumes "snd (parse (ZObject shape) p v) = Some out" and "''__proto__'' \<notin> fst ` set shape"
  shows "has_key out k \<longleftrightarrow> has_key v k \<and> k \<in> fst ` set shape"
proof -
  from assms(1) obtain kvs where v: "v = JObj kvs"
    by (cases v) auto
  define pairs where "pairs = snd (parse_shape shape p v)"
  from assms(1) have m0: "mergeObjectSync pairs [] = Some out"
    by (simp add: v pairs_def split: prod.splits)
  then obtain kvs' where out: "out = JObj kvs'"
    using mergeObjectSync_obj by blast
  have all: "list_all (\<lambda>(k, r, a). r \<noteq> None) pairs"
    using m0 mergeObjectSync_accepts [of pairs "[]"] by simp
  have pairs: "pairs = map (\<lambda>(k, s). (k, snd (parse s (p @ [k]) (js_get v k)), has_key v k)) shape"
    by (simp add: pairs_def parse_shape_snd)
  have "(\<exists>x a. (k, Some x, a) \<in> set pairs \<and> k \<noteq> ''__proto__'' \<and> (x \<noteq> JUndefined \<or> a))
        \<longleftrightarrow> has_key v k \<and> k \<in> fst ` set shape" (is "?l \<longleftrightarrow> ?r")
  proof
    assume ?l
    then obtain x a where pair: "(k, Some x, a) \<in> set pairs" and set: "x \<noteq> JUndefined \<or> a"
      by blast
    from pair have k: "k \<in> fst ` set shape" and a: "a = has_key v k"
      by (force simp: pairs)+
    from pair have "restriction_of x (js_get v k)"
      using parse_restriction(2) [of k x a shape p v] by (simp add: pairs_def)
    then have "has_key v k"
      using set a restriction_of_undefined [of x]
      by (cases "map_of kvs k") (auto simp: v has_key_def)
    with k show ?r by simp
  next
    assume ?r
    then obtain s where ks: "(k, s) \<in> set shape" and has: "has_key v k"
      by auto
    then have "(k, snd (parse s (p @ [k]) (js_get v k)), True) \<in> set pairs"
      by (force simp: pairs)
    moreover from this all obtain x where "snd (parse s (p @ [k]) (js_get v k)) = Some x"
      by (auto simp: list_all_iff)
    moreover have "k \<noteq> ''__proto__''"
      using ks assms(2) by force
    ultimately show ?l by auto
  qed
  with mergeObjectSync_has [OF m0 [unfolded out], of k] show ?thesis
    by (simp add: out has_key_def)
qed

lemma validate_doc_with_behaviour:
  "validateConfigSchema doc_with_behaviour = Inr (JObj [(''services'', JArr [])])"
  by (simp add: doc_with_behaviour_def validateConfigSchema_def schema_def expect_def obj_set_def
      array_index_def has_key_def)

section \<open>Properties of tag resolution\<close>

lemma get_prop_object: "isPlainObject v \<Longrightarrow> get_prop v k = Inr (js_get v k)"
  by (cases v) (simp_all add: isPlainObject_def get_prop_def)

lemma find_append_cases:
  "find P (xs @ ys) = (case find P xs of None \<Rightarrow> find P ys | Some x \<Rightarrow> Some x)"
  by (induction xs) auto

lemma find_SomeD: "find P xs = Some x \<Longrightarrow> x \<in> set xs \<and> P x"
  by (induction xs) (auto split: if_splits)

lemma tags_reduce_objects:
  "list_all isPlainObject xs \<Longrightarrow>
   \<exists>tags. tags_reduce xs acc = Inr tags
     \<and> (\<forall>name. tags (JStr name) =
           (case last_declared xs name of Some t \<Rightarrow> Some t | None \<Rightarrow> acc (JStr name)))"
proof (induction xs arbitrary: acc)
  case Nil
  then show ?case by (simp add: last_declared_def)
next
  case (Cons x xs)
  from Cons.prems have x: "isPlainObject x" and xs: "list_all isPlainObject xs"
    by simp_all
  from Cons.IH [OF xs, of "acc(js_get x ''name'' \<mapsto> x)"]
  obtain tags where t: "tags_reduce xs (acc(js_get x ''name'' \<mapsto> x)) = Inr tags"
    and l: "\<And>name. tags (JStr name) =
           (case last_declared xs name of Some t \<Rightarrow> Some t
            | None \<Rightarrow> (acc(js_get x ''name'' \<mapsto> x)) (JStr name))"
    by blast
  have "tags (JStr name) =
      (case last_declared (x # xs) name of Some t \<Rightarrow> Some t | None \<Rightarrow> acc (JStr name))" for name
    by (simp add: l last_declared_def find_append_cases split: option.splits)
  with t x show ?case
    by (simp add: get_prop_object)
qed

lemma truthy_object: "isPlainObject v \<Longrightarrow> truthy v"
  by (cases v) (simp_all add: isPlainObject_def)

lemma last_declared_object:
  "list_all isPlainObject xs \<Longrightarrow> last_declared xs name = Some t \<Longrightarrow> truthy t"
  by (auto simp: last_declared_def list_all_iff dest!: find_SomeD intro: truthy_object)

section \<open>Properties of the merge\<close>

lemma defu_props_step:
  "defu_props ((key, val) # baseObject) object =
     defu_props baseObject
       (if skipped_key key \<or> nullish_value val then object
        else obj_set key (merged_value val (js_get (JObj object) key)) object)"
  by (simp add: merged_value_def skipped_key_def nullish_value_def split: jsval.splits)

lemma defu_props_get:
  "distinct (map fst base) \<Longrightarrow>
   js_get (JObj (defu_props base object)) k =
     (case map_of base k of
        None \<Rightarrow> js_get (JObj object) k
      | Some val \<Rightarrow>
          if skipped_key k \<or> nullish_value val then js_get (JObj object) k
          else merged_value val (js_get (JObj object) k))"
proof (induction base arbitrary: object)
  case Nil
  then show ?case by simp
next
  case (Cons kv base)
  obtain key val where kv: "kv = (key, val)" by (cases kv)
  from Cons.prems have d: "distinct (map fst base)" and fresh: "map_of base key = None"
    by (auto simp: kv map_of_eq_None_iff)
  show ?case
    unfolding kv defu_props_step Cons.IH [OF d]
    using fresh by (auto simp: js_get_obj_set simp del: js_get.simps split: option.splits)
qed

lemma defu_object:
  "defu (JObj kvs) (JObj defaults) = JObj (defu_props kvs defaults)"
  by (simp add: defu_def defu1_def isPlainObject_def)

lemma default_array: "js_get getDefaultConfig k = JArr ys \<Longrightarrow> ys = []"
  by (simp add: getDefaultConfig_def split: if_splits)

lemma default_object:
  "js_get getDefaultConfig k = JObj d \<Longrightarrow> k = ''behaviour'' \<and> d = [(''target'', JStr ''_blank'')]"
  by (simp add: getDefaultConfig_def split: if_splits)

lemma default_behaviour:
  "js_get getDefaultConfig ''behaviour'' = JObj [(''target'', JStr ''_blank'')]"
  by (simp add: getDefaultConfig_def)

lemma merged_over_default:
  "merged_value val (js_get getDefaultConfig k) =
     (if k = ''behaviour'' \<and> isPlainObject val
      then JObj (defu_props (own_props val) [(''target'', JStr ''_blank'')])
      else val)"
proof (cases val)
  case (JArr xs)
  then show ?thesis
    using default_array [of k]
    by (cases "js_get getDefaultConfig k") (simp_all add: merged_value_def isPlainObject_def)
next
  case (JObj b)
  then show ?thesis
    using default_object [of k] default_behaviour
    by (cases "js_get getDefaultConfig k") (auto simp: merged_value_def isPlainObject_def)
qed (simp_all add: merged_value_def isPlainObject_def)


lemma defu_defaults_get:
  assumes d: "distinct (map fst kvs)"
  shows "js_get (defu (JObj kvs) getDefaultConfig) k =
     (if skipped_key k \<or> nullish_value (js_get (JObj kvs) k) then js_get getDefaultConfig k
      else if k = ''behaviour'' \<and> isPlainObject (js_get (JObj kvs) k)
        then JObj (defu_props (own_props (js_get (JObj kvs) k)) [(''target'', JStr ''_blank'')])
      else js_get (JObj kvs) k)"
proof -
  obtain defaults where defaults: "getDefaultConfig = JObj defaults"
    by (simp add: getDefaultConfig_def)
  have "js_get (JObj (defu_props kvs defaults)) k =
     (if skipped_key k \<or> nullish_value (js_get (JObj kvs) k) then js_get (JObj defaults) k
      else if k = ''behaviour'' \<and> isPlainObject (js_get (JObj kvs) k)
        then JObj (defu_props (own_props (js_get (JObj kvs) k)) [(''target'', JStr ''_blank'')])
      else js_get (JObj kvs) k)"
  proof (cases "map_of kvs k")
    case None
    then have "js_get (JObj kvs) k = JUndefined" by simp
    with None show ?thesis
      by (simp add: defu_props_get [OF d] nullish_value_def del: js_get.simps)
  next
    case (Some val)
    then have "js_get (JObj kvs) k = val" by simp
    with Some show ?thesis
      using merged_over_default [of val k]
      by (auto simp: defu_props_get [OF d] defaults simp del: js_get.simps)
  qed
  then show ?thesis
    by (simp only: defaults defu_object)
qed

section \<open>Properties of serialization\<close>

lemma serialize_kept:
  "r key v = Inr False \<Longrightarrow>
   serialize r key v =
     (case v of
        JObj kvs \<Rightarrow>
          (case serialize_props r kvs of Inl e \<Rightarrow> Inl e | Inr kvs' \<Rightarrow> Inr (JObj kvs'))
      | JArr xs \<Rightarrow>
          (case serialize_items r 0 xs of Inl e \<Rightarrow> Inl e | Inr xs' \<Rightarrow> Inr (JArr xs'))
      | JNum n \<Rightarrow> Inr (if is_finite n then JNum n else JNull)
      | _ \<Rightarrow> Inr v)"
  by (simp add: serialize.simps(1))

lemma serialize_omitted: "r key v = Inr True \<Longrightarrow> serialize r key v = Inr JUndefined"
  by (simp add: serialize.simps(1))

lemma serialize_throws: "r key v = Inl e \<Longrightarrow> serialize r key v = Inl e"
  by (simp add: serialize.simps(1))

lemma is_digit_digit_char: "d < 10 \<Longrightarrow> is_digit (digit_char d)"
  by (simp add: is_digit_def digit_char_def)

lemma show_nat_digits: "list_all is_digit (show_nat n)"
proof (induction n rule: show_nat.induct)
  case (1 n)
  show ?case
    by (subst show_nat.simps) (use 1 in \<open>auto simp: is_digit_digit_char\<close>)
qed

lemma show_nat_not_secrets: "show_nat i \<noteq> ''secrets''"
proof
  assume "show_nat i = ''secrets''"
  with show_nat_digits [of i] show False
    by (simp add: is_digit_def)
qed

lemma secrets_replacer_simp: "secrets_replacer key v = Inr (key = ''secrets'')"
  by (simp add: secrets_replacer_def)

lemma serialize_secrets_key: "serialize secrets_replacer ''secrets'' v = Inr JUndefined"
  by (simp add: serialize_omitted secrets_replacer_simp)

lemma props_clean:
  "\<forall>(k, v) \<in> set kvs. \<exists>out. serialize secrets_replacer k v = Inr out \<and> \<not> has_field ''secrets'' out
   \<Longrightarrow> \<exists>out. serialize_props secrets_replacer kvs = Inr out
          \<and> \<not> list_ex (\<lambda>(k, v). k = ''secrets'' \<or> has_field ''secrets'' v) out"
proof (induction kvs)
  case Nil
  then show ?case by simp
next
  case (Cons kv kvs)
  obtain k v where kv: "kv = (k, v)" by (cases kv)
  from Cons.prems obtain v' where
    v': "serialize secrets_replacer k v = Inr v'" "\<not> has_field ''secrets'' v'"
    by (auto simp: kv)
  have u: "k = ''secrets'' \<Longrightarrow> v' = JUndefined"
    using v' by (simp add: serialize_secrets_key)
  from Cons obtain kvs' where
    "serialize_props secrets_replacer kvs = Inr kvs'"
    "\<not> list_ex (\<lambda>(k, v). k = ''secrets'' \<or> has_field ''secrets'' v) kvs'"
    by auto
  with v' u show ?case by (auto simp: kv)
qed

lemma items_clean:
  "\<forall>x \<in> set xs. \<forall>key. \<exists>out. serialize secrets_replacer key x = Inr out \<and> \<not> has_field ''secrets'' out
   \<Longrightarrow> \<exists>out. serialize_items secrets_replacer i xs = Inr out
          \<and> \<not> list_ex (has_field ''secrets'') out"
proof (induction xs arbitrary: i)
  case Nil
  then show ?case by simp
next
  case (Cons x xs)
  from Cons.prems obtain x' where
    x': "serialize secrets_replacer (show_nat i) x = Inr x'" "\<not> has_field ''secrets'' x'"
    by fastforce
  from Cons.IH [of "Suc i"] Cons.prems obtain xs' where
    "serialize_items secrets_replacer (Suc i) xs = Inr xs'"
    "\<not> list_ex (has_field ''secrets'') xs'"
    by auto
  with x' show ?case by auto
qed

lemma serialize_secrets_clean:
  "\<exists>out. serialize secrets_replacer key v = Inr out \<and> \<not> has_field ''secrets'' out"
proof (induction v arbitrary: key)
  case (JArr xs)
  then have "\<exists>out. serialize_items secrets_replacer 0 xs = Inr out
          \<and> \<not> list_ex (has_field ''secrets'') out"
    by (intro items_clean) blast
  moreover have "secrets_replacer key (JArr xs) = Inr (key = ''secrets'')"
    by (simp add: secrets_replacer_def)
  ultimately show ?case
    by (cases "key = ''secrets''") (auto simp: serialize_kept serialize_omitted)
next
  case (JObj kvs)
  then have "\<exists>out. serialize_props secrets_replacer kvs = Inr out
          \<and> \<not> list_ex (\<lambda>(k, v). k = ''secrets'' \<or> has_field ''secrets'' v) out"
    by (intro props_clean) fastforce
  moreover have "secrets_replacer key (JObj kvs) = Inr (key = ''secrets'')"
    by (simp add: secrets_replacer_def)
  ultimately show ?case
    by (cases "key = ''secrets''") (auto simp: serialize_kept serialize_omitted)
qed (auto simp: secrets_replacer_def serialize.simps(1) split: bool.splits)

lemma remove_secrets_defined:
  "json_value v \<Longrightarrow> remove_secrets_spec v \<noteq> JUndefined"
  by (cases v) simp_all

lemma props_json:
  "\<forall>(k, v) \<in> set kvs. json_value v \<and> k \<noteq> ''secrets'' \<longrightarrow>
       serialize secrets_replacer k v = Inr (remove_secrets_spec v) \<Longrightarrow>
   list_all (\<lambda>(k, v). json_value v) kvs \<Longrightarrow>
   serialize_props secrets_replacer kvs = Inr (remove_secrets_props kvs)"
proof (induction kvs)
  case Nil
  then show ?case by simp
next
  case (Cons kv kvs)
  obtain k v where kv: "kv = (k, v)" by (cases kv)
  from Cons.prems have v: "json_value v" by (simp add: kv)
  from Cons have tail: "serialize_props secrets_replacer kvs = Inr (remove_secrets_props kvs)"
    by simp
  show ?case
  proof (cases "k = ''secrets''")
    case True
    with tail show ?thesis by (simp add: kv serialize_secrets_key)
  next
    case False
    with Cons.prems v have "serialize secrets_replacer k v = Inr (remove_secrets_spec v)"
      by (simp add: kv)
    with tail False remove_secrets_defined [OF v] show ?thesis by (simp add: kv)
  qed
qed

lemma items_json:
  "\<forall>x \<in> set xs. \<forall>key. json_value x \<and> key \<noteq> ''secrets'' \<longrightarrow>
       serialize secrets_replacer key x = Inr (remove_secrets_spec x) \<Longrightarrow>
   list_all json_value xs \<Longrightarrow>
   serialize_items secrets_replacer i xs = Inr (remove_secrets_items xs)"
proof (induction xs arbitrary: i)
  case Nil
  then show ?case by simp
next
  case (Cons x xs)
  from Cons.prems have x: "json_value x" by simp
  with Cons.prems have "serialize secrets_replacer (show_nat i) x = Inr (remove_secrets_spec x)"
    by (simp add: show_nat_not_secrets)
  moreover from Cons.IH [of "Suc i"] Cons.prems
  have "serialize_items secrets_replacer (Suc i) xs = Inr (remove_secrets_items xs)"
    by simp
  ultimately show ?case
    using remove_secrets_defined [OF x] by simp
qed

lemma serialize_secrets_json:
  "json_value v \<Longrightarrow> key \<noteq> ''secrets'' \<Longrightarrow>
   serialize secrets_replacer key v = Inr (remove_secrets_spec v)"
proof (induction v arbitrary: key)
  case (JArr xs)
  then have "serialize_items secrets_replacer 0 xs = Inr (remove_secrets_items xs)"
    by (intro items_json) (auto simp: list_all_iff)
  moreover have "secrets_replacer key (JArr xs) = Inr False"
    using JArr.prems by (simp add: secrets_replacer_def)
  ultimately show ?case
    by (simp add: serialize_kept)
next
  case (JObj kvs)
  then have "serialize_props secrets_replacer kvs = Inr (remove_secrets_props kvs)"
    by (intro props_json) (fastforce simp: list_all_iff)+
  moreover have "secrets_replacer key (JObj kvs) = Inr False"
    using JObj.prems by (simp add: secrets_replacer_def)
  ultimately show ?case
    by (simp add: serialize_kept)
qed (auto simp: secrets_replacer_def serialize.simps(1) split: bool.splits)

lemma extract_config_with_infinity:
  "extractSafelyConfig config_with_infinity =
     Inr (JObj [(''title'', JStr ''Mafl Home Page''),
           (''lang'', JStr ''en''),
           (''theme'', JStr ''system''),
           (''checkUpdates'', JBool True),
           (''behaviour'', JObj [(''target'', JStr ''_blank'')]),
           (''tags'', JArr []),
           (''services'',
              JArr [JObj [(''items'',
                JArr [JObj [(''options'', JObj [(''limit'', JNull)]),
                            (''id'', JStr ''id-0''),
                            (''tags'', JArr [])]])]])])"
  by code_simp

lemma extract_config_with_secrets:
  "extractSafelyConfig config_with_secrets =
     Inr (JObj [(''title'', JStr ''Mafl Home Page''),
           (''lang'', JStr ''en''),
           (''theme'', JStr ''system''),
           (''checkUpdates'', JBool True),
           (''behaviour'', JObj [(''target'', JStr ''_blank'')]),
           (''tags'', JArr []),
           (''services'',
              JArr [JObj [(''items'',
                JArr [JObj [(''options'', JObj [(''limit'', JNum (Finite 5))]),
                            (''id'', JStr ''id-0''),
                            (''tags'', JArr [])]])]])])"
  by code_simp

section \<open>Properties of the loader\<close>

lemma validated_is_object:
  "validateConfigSchema config = Inr out \<Longrightarrow> \<exists>kvs. config = JObj kvs"
  by (cases config) (auto simp: validateConfigSchema_def schema_def)

lemma build_config_success:
  assumes "build_config e config = Inr cfg"
  shows "\<exists>kvs tags validated groups.
      config = JObj kvs
    \<and> createTagMap (js_or (js_get config ''tags'') (JArr [])) = Inr tags
    \<and> validateConfigSchema config = Inr validated
    \<and> normalize_services (randomUUID e) tags (js_get config ''services'') = Inr groups
    \<and> cfg = defu (JObj (obj_set ''services'' (JArr groups) kvs)) getDefaultConfig"
  using assms validated_is_object [of config]
  by (auto simp: build_config_def split: sum.splits)

lemma merged_services:
  assumes "distinct (map fst kvs)"
  shows "js_get (defu (JObj (obj_set ''services'' (JArr groups) kvs)) getDefaultConfig) ''services''
    = JArr groups"
  using defu_defaults_get [OF distinct_obj_set [OF assms], of "''services''" "JArr groups" "''services''"]
  by (simp add: js_get_obj_set skipped_key_def nullish_value_def del: js_get.simps)

lemma determine_item_id:
  "determine_item tags uuid item = Inr service \<Longrightarrow> js_get service ''id'' = JStr uuid"
  by (auto simp: determine_item_def map_of_obj_set split: sum.splits jsval.splits)

lemma determine_items_ids:
  "determine_items uuid tags n xs = Inr (services, n') \<Longrightarrow>
   n' = n + length xs
   \<and> map (\<lambda>service. js_get service ''id'') services = map (\<lambda>m. JStr (uuid m)) [n..<n']"
proof (induction xs arbitrary: n services)
  case Nil
  then show ?case by simp
next
  case (Cons x xs)
  from Cons.prems obtain s ss where s: "determine_item tags (uuid n) x = Inr s"
    and ss: "determine_items uuid tags (Suc n) xs = Inr (ss, n')"
    and services: "services = s # ss"
    by (auto split: sum.splits)
  from Cons.IH [OF ss] have n': "n' = Suc n + length xs"
    and ids: "map (\<lambda>service. js_get service ''id'') ss = map (\<lambda>m. JStr (uuid m)) [Suc n..<n']"
    by simp_all
  have "[n..<n'] = n # [Suc n..<n']"
    using n' by (intro upt_conv_Cons) simp
  with ids n' determine_item_id [OF s] show ?case
    by (simp add: services)
qed

lemma determineService_ids:
  "determineService uuid n items tags = Inr (services, n') \<Longrightarrow>
   n \<le> n' \<and> map (\<lambda>service. js_get service ''id'') services = map (\<lambda>m. JStr (uuid m)) [n..<n']"
  by (auto simp: determineService_def split: jsval.splits dest!: determine_items_ids)

lemma push_groups_ids:
  "push_groups uuid tags n entries = Inr groups \<Longrightarrow>
   \<exists>n'. n \<le> n' \<and> concat (map group_ids groups) = map (\<lambda>m. JStr (uuid m)) [n..<n']"
proof (induction entries arbitrary: n groups)
  case Nil
  then show ?case by (auto intro: exI [of _ n])
next
  case (Cons entry entries)
  obtain title items where entry: "entry = (title, items)" by (cases entry)
  from Cons.prems obtain services n1 gs where
    d: "determineService uuid n items tags = Inr (services, n1)"
    and p: "push_groups uuid tags n1 entries = Inr gs"
    and groups: "groups = JObj [(''title'', JStr title), (''items'', JArr services)] # gs"
    by (auto simp: entry split: sum.splits)
  from Cons.IH [OF p] obtain n' where n': "n1 \<le> n'"
    "concat (map group_ids gs) = map (\<lambda>m. JStr (uuid m)) [n1..<n']"
    by blast
  from determineService_ids [OF d] have n1: "n \<le> n1"
    "map (\<lambda>service. js_get service ''id'') services = map (\<lambda>m. JStr (uuid m)) [n..<n1]"
    by simp_all
  have split: "[n..<n'] = [n..<n1] @ [n1..<n']"
    using n1(1) n'(1) by (metis le_Suc_ex upt_add_eq_append)
  have "group_ids (JObj [(''title'', JStr title), (''items'', JArr services)])
      = map (\<lambda>m. JStr (uuid m)) [n..<n1]"
    using n1(2) by (simp add: group_ids_def)
  with n' n1(1) split have "n \<le> n' \<and> concat (map group_ids groups) = map (\<lambda>m. JStr (uuid m)) [n..<n']"
    by (simp add: groups)
  then show ?case by blast
qed

lemma normalize_services_ids:
  "normalize_services uuid tags services = Inr groups \<Longrightarrow>
   \<exists>n'. concat (map group_ids groups) = map (\<lambda>m. JStr (uuid m)) [0..<n']"
proof (cases services)
  case (JArr xs)
  assume "normalize_services uuid tags services = Inr groups"
  then obtain items n' where "determineService uuid 0 services tags = Inr (items, n')"
    and "groups = [JObj [(''items'', JArr items)]]"
    by (auto simp: normalize_services_def JArr split: sum.splits)
  with determineService_ids [of uuid 0 services tags items n'] show ?thesis
    by (auto simp: group_ids_def intro!: exI [of _ n'])
qed (use push_groups_ids [of uuid tags 0 _ groups] in \<open>auto simp: normalize_services_def\<close>)

subsection \<open>Evaluation on examples\<close>

lemma digit_chars:
  "digit_char 0 = CHR ''0''" "digit_char 1 = CHR ''1''" "digit_char 2 = CHR ''2''"
  "digit_char 3 = CHR ''3''" "digit_char 4 = CHR ''4''" "digit_char 5 = CHR ''5''"
  "digit_char 6 = CHR ''6''" "digit_char 7 = CHR ''7''" "digit_char 8 = CHR ''8''"
  "digit_char 9 = CHR ''9''"
  by code_simp+

lemma show_nat_small: "n < 10 \<Longrightarrow> show_nat n = [digit_char n]"
  by (simp add: show_nat.simps)

lemmas eval_simps = obj_set_def array_index_def is_digit_def read_nat_def has_key_def expect_def
  show_nat_small digit_chars js_or_def get_prop_def isPlainObject_def

lemma read_config_env_of: "read_config (env_of doc) = Inr (js_or doc (JObj []))"
  by (simp add: read_config_def env_of_def)

lemma load_env_of:
  assumes "truthy doc"
    and "createTagMap (js_or (js_get doc ''tags'') (JArr [])) = Inr tags"
  shows "validateConfigSchema doc = Inl x \<Longrightarrow>
      loadLocalConfig (env_of doc) = catch_block (env_of doc) x"
    and "validateConfigSchema doc = Inr validated \<Longrightarrow>
      normalize_services (randomUUID (env_of doc)) tags (js_get doc ''services'') = Inr groups \<Longrightarrow>
      loadLocalConfig (env_of doc) =
        Inr (defu (JObj (obj_set ''services'' (JArr groups) (own_props doc))) getDefaultConfig)"
    and "validateConfigSchema doc = Inr validated \<Longrightarrow>
      normalize_services (randomUUID (env_of doc)) tags (js_get doc ''services'') = Inl x \<Longrightarrow>
      loadLocalConfig (env_of doc) = catch_block (env_of doc) x"
  using assms
  by (simp_all add: loadLocalConfig_def try_block_def build_config_def read_config_env_of js_or_def)

lemma inj_env_of: "inj (randomUUID (env_of doc))"
proof (rule injI)
  fix n m
  assume "randomUUID (env_of doc) n = randomUUID (env_of doc) m"
  then have "replicate n CHR ''i'' = replicate m CHR ''i''"
    by (simp add: env_of_def)
  then have "length (replicate n CHR ''i'') = length (replicate m CHR ''i'')"
    by simp
  then show "n = m" by simp
qed

lemma validate_two_groups:
  "validateConfigSchema doc_two_groups =
     Inr (JObj [(''services'',
             JObj [(''Dev'', JArr [JObj [(''title'', JStr ''Git'')], JObj []]),
                   (''Home'', JArr [JObj []])])])"
  by (simp add: doc_two_groups_def validateConfigSchema_def schema_def service_schema_def
      nullish_def icon_schema_def status_schema_def tag_schema_def eval_simps)

lemma load_two_groups: "loadLocalConfig (env_of doc_two_groups) = Inr config_two_groups"
proof -
  have t: "createTagMap (js_or (js_get doc_two_groups ''tags'') (JArr [])) = Inr Map.empty"
    by (simp add: createTagMap_def js_or_def doc_two_groups_def)
  have n: "normalize_services (randomUUID (env_of doc_two_groups)) Map.empty
      (js_get doc_two_groups ''services'') =
    Inr [JObj [(''title'', JStr ''Dev''),
               (''items'',
                  JArr [JObj [(''title'', JStr ''Git''), (''id'', JStr ''id-''),
                              (''tags'', JArr [])],
                        JObj [(''id'', JStr ''id-i''), (''tags'', JArr [])]])],
         JObj [(''title'', JStr ''Home''),
               (''items'',
                  JArr [JObj [(''tags'',
                                JArr [JObj [(''name'', JStr ''x''), (''color'', JStr ''blue'')]]),
                              (''id'', JStr ''id-ii'')]])]]"
    by (simp add: doc_two_groups_def env_of_def normalize_services_def
      determineService_def determine_item_def resolve_tag_def eval_simps)
  have "truthy doc_two_groups"
    by (simp add: doc_two_groups_def)
  from load_env_of(2) [OF this t validate_two_groups n] show ?thesis
    by (simp add: doc_two_groups_def config_two_groups_def defu_def defu1_def getDefaultConfig_def
        eval_simps)
qed

subsection \<open>The shape of a validated document\<close>

lemma mergeArray_accepts: "mergeArray rs \<noteq> None \<longleftrightarrow> list_all (\<lambda>r. r \<noteq> None) rs"
  by (induction rs rule: mergeArray.induct) auto

lemma set_indexed: "x \<in> set xs \<Longrightarrow> \<exists>i. (i, x) \<in> set (indexed n xs)"
  by (induction xs arbitrary: n) auto

lemma parse_array_accepts:
  assumes "snd (parse (ZArray s) p v) \<noteq> None"
  shows "\<exists>xs. v = JArr xs \<and> (\<forall>x \<in> set xs. \<exists>i. snd (parse s (p @ [i]) x) \<noteq> None)"
proof -
  from assms obtain xs where v: "v = JArr xs"
    by (cases v) auto
  from assms have "mergeArray
      (map snd (map (\<lambda>(i, x). parse s (p @ [i]) x) (indexed 0 xs))) \<noteq> None"
    by (simp add: v)
  then have "\<forall>(i, x) \<in> set (indexed 0 xs). snd (parse s (p @ [i]) x) \<noteq> None"
    unfolding mergeArray_accepts by (auto simp: list_all_iff)
  then have all: "\<And>i x. (i, x) \<in> set (indexed 0 xs) \<Longrightarrow> snd (parse s (p @ [i]) x) \<noteq> None"
    by blast
  have "\<exists>i. snd (parse s (p @ [i]) x) \<noteq> None" if "x \<in> set xs" for x
  proof -
    from set_indexed [OF that, of 0] obtain i where "(i, x) \<in> set (indexed 0 xs)" ..
    from all [OF this] show ?thesis ..
  qed
  with v show ?thesis by blast
qed

lemma parse_record_accepts:
  assumes "snd (parse (ZRecord s) p v) \<noteq> None"
  shows "\<exists>kvs. v = JObj kvs \<and> (\<forall>(k, x) \<in> set kvs. snd (parse s (p @ [k]) x) \<noteq> None)"
proof -
  from assms obtain kvs where v: "v = JObj kvs"
    by (cases v) auto
  from assms have "mergeObjectSync
      (map (\<lambda>(k, r). (k, snd r, True)) (map (\<lambda>(k, x). (k, parse s (p @ [k]) x)) kvs)) [] \<noteq> None"
    by (simp add: v)
  then have "\<forall>(k, x) \<in> set kvs. snd (parse s (p @ [k]) x) \<noteq> None"
    unfolding mergeObjectSync_accepts by (auto simp: list_all_iff)
  with v show ?thesis by blast
qed

lemma parse_object_is_object:
  "snd (parse (ZObject shape) p v) \<noteq> None \<Longrightarrow> isPlainObject v"
  by (cases v) (simp_all add: isPlainObject_def)

lemma objects_array_shape:
  assumes "snd (parse (ZArray (ZObject shape)) p v) \<noteq> None"
  shows "\<exists>xs. v = JArr xs \<and> list_all isPlainObject xs"
proof -
  from parse_array_accepts [OF assms] obtain xs where v: "v = JArr xs"
    and all: "\<And>x. x \<in> set xs \<Longrightarrow> \<exists>i. snd (parse (ZObject shape) (p @ [i]) x) \<noteq> None"
    by blast
  have "isPlainObject x" if "x \<in> set xs" for x
    using all [OF that] parse_object_is_object by blast
  with v show ?thesis by (simp add: list_all_iff)
qed

lemma services_array_shape:
  assumes "snd (parse (ZArray service_schema) p v) \<noteq> None"
  shows "\<exists>xs. v = JArr xs \<and> list_all isPlainObject xs"
  using assms unfolding service_schema_def by (rule objects_array_shape)

lemma tags_array_shape:
  assumes "snd (parse (ZArray tag_schema) p v) \<noteq> None"
  shows "\<exists>xs. v = JArr xs \<and> list_all isPlainObject xs"
  using assms unfolding tag_schema_def by (rule objects_array_shape)

lemma services_record_shape:
  assumes "snd (parse (ZRecord (ZArray service_schema)) p v) \<noteq> None"
  shows "\<exists>kvs. v = JObj kvs
    \<and> list_all (\<lambda>(k, x). \<exists>xs. x = JArr xs \<and> list_all isPlainObject xs) kvs"
proof -
  from parse_record_accepts [OF assms] obtain kvs where v: "v = JObj kvs"
    and all: "\<And>k x. (k, x) \<in> set kvs \<Longrightarrow> snd (parse (ZArray service_schema) (p @ [k]) x) \<noteq> None"
    by blast
  have "\<exists>xs. x = JArr xs \<and> list_all isPlainObject xs" if "(k, x) \<in> set kvs" for k x
    using services_array_shape [OF all [OF that]] .
  with v show ?thesis by (auto simp: list_all_iff)
qed

lemma union_accepts:
  "snd (parse (ZUnion [a, b]) p v) \<noteq> None \<Longrightarrow>
   snd (parse a p v) \<noteq> None \<or> snd (parse b p v) \<noteq> None"
  by (auto split: prod.splits option.splits)

lemma validated_shape:
  assumes "validateConfigSchema config = Inr validated"
  shows "(js_get config ''tags'' = JUndefined
      \<or> (\<exists>xs. js_get config ''tags'' = JArr xs \<and> list_all isPlainObject xs))
    \<and> ((\<exists>xs. js_get config ''services'' = JArr xs \<and> list_all isPlainObject xs)
      \<or> (\<exists>kvs. js_get config ''services'' = JObj kvs
            \<and> list_all (\<lambda>(k, x). \<exists>xs. x = JArr xs \<and> list_all isPlainObject xs) kvs))"
proof -
  from assms obtain kvs where config: "config = JObj kvs"
    using validated_is_object by blast
  from assms have "snd (parse schema [] (JObj kvs)) \<noteq> None"
    using validate_accepts_iff [of config] by (auto simp: config)
  then have t: "snd (parse (ZOptional (ZArray tag_schema)) [''tags''] (js_get config ''tags'')) \<noteq> None"
    and s: "snd (parse (ZUnion [ZArray service_schema, ZRecord (ZArray service_schema)])
              [''services''] (js_get config ''services'')) \<noteq> None"
    unfolding schema_accepts config by blast+
  from t have "js_get config ''tags'' = JUndefined
      \<or> (\<exists>xs. js_get config ''tags'' = JArr xs \<and> list_all isPlainObject xs)"
    using tags_array_shape [of "[''tags'']" "js_get config ''tags''"]
    by (cases "js_get config ''tags'' = JUndefined") (simp_all del: js_get.simps)
  moreover from union_accepts [OF s]
  have "(\<exists>xs. js_get config ''services'' = JArr xs \<and> list_all isPlainObject xs)
      \<or> (\<exists>kvs. js_get config ''services'' = JObj kvs
            \<and> list_all (\<lambda>(k, x). \<exists>xs. x = JArr xs \<and> list_all isPlainObject xs) kvs)"
    using services_array_shape services_record_shape by blast
  ultimately show ?thesis by blast
qed

lemma determine_item_ok:
  "isPlainObject item \<Longrightarrow> tags_ok item \<Longrightarrow>
   determine_item tags uuid item = Inr (normalized_spec tags uuid item)"
  by (auto simp: determine_item_def normalized_spec_def tags_ok_def get_prop_object
      split: jsval.splits)

lemma determine_items_ok:
  "list_all isPlainObject xs \<Longrightarrow> list_all tags_ok xs \<Longrightarrow>
   determine_items uuid tags n xs = Inr (normalized_list_spec uuid tags n xs, n + length xs)"
  by (induction xs arbitrary: n) (simp_all add: determine_item_ok)

lemma push_groups_ok:
  "list_all (\<lambda>(k, x). \<exists>xs. x = JArr xs \<and> list_all isPlainObject xs) kvs \<Longrightarrow>
   list_all (\<lambda>(title, items). case items of JArr xs \<Rightarrow> list_all tags_ok xs | _ \<Rightarrow> True) kvs \<Longrightarrow>
   push_groups uuid tags n kvs = Inr (groups_spec uuid tags n kvs)"
proof (induction kvs arbitrary: n)
  case Nil
  then show ?case by simp
next
  case (Cons kv kvs)
  obtain title items where kv: "kv = (title, items)" by (cases kv)
  from Cons.prems obtain xs where items: "items = JArr xs"
    and xs: "list_all isPlainObject xs" "list_all tags_ok xs"
    by (auto simp: kv)
  from Cons.IH [of "n + length xs"] Cons.prems
  have "push_groups uuid tags (n + length xs) kvs = Inr (groups_spec uuid tags (n + length xs) kvs)"
    by simp
  with determine_items_ok [OF xs, of uuid tags n] show ?case
    by (simp add: kv items determineService_def elements_def)
qed

lemma length_groups_spec: "length (groups_spec uuid tags n kvs) = length kvs"
  by (induction kvs arbitrary: n) auto

lemma titles_groups_spec:
  "map (\<lambda>g. js_get g ''title'') (groups_spec uuid tags n kvs) = map (\<lambda>(k, v). JStr k) kvs"
  by (induction kvs arbitrary: n) auto


lemma createTagMap_validated:
  assumes "validateConfigSchema config = Inr validated"
  shows "\<exists>tags. createTagMap (js_or (js_get config ''tags'') (JArr [])) = Inr tags"
proof -
  from validated_shape [OF assms]
  consider "js_get config ''tags'' = JUndefined"
    | xs where "js_get config ''tags'' = JArr xs" "list_all isPlainObject xs"
    by blast
  then show ?thesis
  proof cases
    case 1
    then show ?thesis by (simp add: js_or_def createTagMap_def)
  next
    case 2
    with tags_reduce_objects [OF 2(2), of Map.empty] show ?thesis
      by (auto simp: js_or_def createTagMap_def)
  qed
qed

lemma normalize_services_validated:
  assumes "validateConfigSchema config = Inr validated"
    and "services_tags_ok (js_get config ''services'')"
  shows "(case js_get config ''services'' of
         JArr xs \<Rightarrow>
           normalize_services uuid tags (js_get config ''services'')
             = Inr [JObj [(''items'', JArr (normalized_list_spec uuid tags 0 xs))]]
       | JObj kvs \<Rightarrow>
           normalize_services uuid tags (js_get config ''services'')
             = Inr (groups_spec uuid tags 0 kvs)
       | _ \<Rightarrow> False)"
proof -
  from validated_shape [OF assms(1)]
  consider xs where "js_get config ''services'' = JArr xs" "list_all isPlainObject xs"
    | kvs where "js_get config ''services'' = JObj kvs"
        "list_all (\<lambda>(k, x). \<exists>xs. x = JArr xs \<and> list_all isPlainObject xs) kvs"
    by blast
  then show ?thesis
  proof cases
    case 1
    from assms(2) have "list_all tags_ok xs"
      by (simp add: 1(1) services_tags_ok_def)
    from determine_items_ok [OF 1(2) this, of uuid tags 0] show ?thesis
      by (simp add: 1(1) normalize_services_def determineService_def)
  next
    case 2
    from assms(2) have "list_all
        (\<lambda>(title, items). case items of JArr xs \<Rightarrow> list_all tags_ok xs | _ \<Rightarrow> True) kvs"
      by (simp add: 2(1) services_tags_ok_def)
    from push_groups_ok [OF 2(2) this, of uuid tags 0] show ?thesis
      by (simp add: 2(1) normalize_services_def js_or_def)
  qed
qed

lemma validate_bad_tags:
  "validateConfigSchema doc_bad_tags = Inr (JObj [(''services'', JArr [JObj []])])"
  by (simp add: doc_bad_tags_def validateConfigSchema_def schema_def service_schema_def
      nullish_def icon_schema_def status_schema_def tag_schema_def eval_simps)

lemma load_bad_tags:
  "loadLocalConfig (env_of doc_bad_tags) =
     Inr (set_error (JStr ''(item.tags || []).map is not a function'') getDefaultConfig)"
proof -
  have t: "createTagMap (js_or (js_get doc_bad_tags ''tags'') (JArr [])) = Inr Map.empty"
    by (simp add: createTagMap_def js_or_def doc_bad_tags_def)
  have n: "normalize_services (randomUUID (env_of doc_bad_tags)) Map.empty
      (js_get doc_bad_tags ''services'') =
    Inl (TypeError ''(item.tags || []).map is not a function'')"
    by (simp add: doc_bad_tags_def env_of_def normalize_services_def
      determineService_def determine_item_def eval_simps)
  have "truthy doc_bad_tags"
    by (simp add: doc_bad_tags_def)
  from load_env_of(3) [OF this t validate_bad_tags n] show ?thesis
    by (simp add: catch_block_def TypeError_def)
qed

section \<open>Properties of the error report\<close>

lemma ordinary_not_errors: "ordinary_key k \<Longrightarrow> k \<noteq> ''_errors''"
  by (auto simp: ordinary_key_def)

lemma is_node_empty: "is_node empty_node"
  by (simp add: empty_node_def is_reasons_def)

lemma is_node_truthy: "is_node v \<Longrightarrow> truthy v"
  by (cases v) simp_all

lemma is_node_child:
  "is_node (JObj kvs) \<Longrightarrow> k \<noteq> ''_errors'' \<Longrightarrow> is_node (js_or (js_get (JObj kvs) k) empty_node)"
proof (cases "map_of kvs k")
  case None
  then show ?thesis by (simp add: js_or_def is_node_empty)
next
  case (Some v)
  assume "is_node (JObj kvs)" "k \<noteq> ''_errors''"
  with Some map_of_SomeD [OF Some] have "is_node v"
    by (auto simp: list_all_iff)
  with Some show ?thesis by (simp add: js_or_def is_node_truthy)
qed

lemma in_obj_set: "(a, b) \<in> set (obj_set k v kvs) \<Longrightarrow> (a, b) = (k, v) \<or> (a, b) \<in> set kvs"
  using set_obj_set [of k v kvs] by blast

lemma is_node_obj_set:
  assumes "is_node (JObj kvs)" and "k \<noteq> ''_errors''" and "is_node v"
  shows "is_node (JObj (obj_set k v kvs))"
proof -
  have "if a = ''_errors'' then is_reasons b else is_node b"
    if "(a, b) \<in> set (obj_set k v kvs)" for a b
    using in_obj_set [OF that] assms by (auto simp: list_all_iff)
  with assms(1,2) distinct_obj_set [of kvs k v] show ?thesis
    by (auto simp: map_of_obj_set list_all_iff)
qed

lemma is_node_push:
  assumes "is_node node"
  shows "\<exists>node'. push_error node msg = Inr node' \<and> is_node node'"
proof -
  from assms obtain kvs where node: "node = JObj kvs"
    by (cases node) auto
  from assms obtain r where r: "map_of kvs ''_errors'' = Some r"
    by (auto simp: node)
  with assms map_of_SomeD [OF r] have "is_reasons r"
    by (auto simp: node list_all_iff)
  then obtain es where es: "r = JArr es"
    "list_all (\<lambda>e. case e of JStr message \<Rightarrow> True | _ \<Rightarrow> False) es"
    by (cases r) (auto simp: is_reasons_def)
  have "if a = ''_errors'' then is_reasons b else is_node b"
    if "(a, b) \<in> set (obj_set ''_errors'' (JArr (es @ [JStr msg])) kvs)" for a b
    using in_obj_set [OF that] assms es(2) by (auto simp: node list_all_iff is_reasons_def)
  moreover have "distinct (map fst (obj_set ''_errors'' (JArr (es @ [JStr msg])) kvs))"
    using assms by (intro distinct_obj_set) (simp add: node)
  ultimately have "is_node (JObj (obj_set ''_errors'' (JArr (es @ [JStr msg])) kvs))"
    by (auto simp: map_of_obj_set list_all_iff)
  then show ?thesis
    by (simp add: push_error_def node r es(1) del: is_node.simps)
qed

lemma add_issue_node:
  "is_node cur \<Longrightarrow> list_all ordinary_key path \<Longrightarrow> path \<noteq> [] \<Longrightarrow>
   \<exists>node'. add_issue cur path msg = Inr node' \<and> is_node node'"
proof (induction path arbitrary: cur)
  case Nil
  then show ?case by simp
next
  case (Cons el path)
  from Cons.prems obtain kvs where cur: "cur = JObj kvs"
    by (cases cur) auto
  from Cons.prems have el: "el \<noteq> ''_errors''"
    by (simp add: ordinary_not_errors)
  define child where "child = js_or (js_get cur el) empty_node"
  have child: "is_node child"
    using Cons.prems(1) el unfolding child_def cur by (rule is_node_child)
  have "\<exists>child'. (if path = [] then push_error child msg else add_issue child path msg) = Inr child'
      \<and> is_node child'"
  proof (cases "path = []")
    case True
    with is_node_push [OF child] show ?thesis by simp
  next
    case False
    with Cons.IH [OF child] Cons.prems show ?thesis by simp
  qed
  then obtain child' where
    c: "(if path = [] then push_error child msg else add_issue child path msg) = Inr child'"
    and n: "is_node child'"
    by blast
  have "add_issue cur (el # path) msg = Inr (JObj (obj_set el child' kvs))"
    using c unfolding child_def cur by (auto simp: Let_def simp del: js_get.simps)
  moreover have "is_node (JObj (obj_set el child' kvs))"
    using Cons.prems(1) el n unfolding cur by (rule is_node_obj_set)
  ultimately show ?case by blast
qed

lemma processError_node:
  "list_all clean_issue issues \<Longrightarrow> is_node t \<Longrightarrow>
     \<exists>t'. processError issues t = Inr t' \<and> is_node t'"
  "list_all (list_all clean_issue) errs \<Longrightarrow> is_node t \<Longrightarrow>
     \<exists>t'. processErrors errs t = Inr t' \<and> is_node t'"
proof (induction issues t and errs t rule: processError_processErrors.induct)
  case (1 fieldErrors)
  then show ?case by simp
next
  case (2 path unionErrors issues fieldErrors)
  note ih = 2(1,2) and prems = 2(3,4)
  from prems have u: "list_all (list_all clean_issue) unionErrors"
    and rest: "list_all clean_issue issues" by simp_all
  from ih(1) [OF u prems(2)] obtain t1 where t1: "processErrors unionErrors fieldErrors = Inr t1"
    "is_node t1" by blast
  from ih(2) [OF t1(1) rest t1(2)] t1(1) show ?case by simp
next
  case (3 path ty received issues fieldErrors)
  note ih = 3(1) and prems = 3(2,3)
  from prems have p: "list_all ordinary_key path" and rest: "list_all clean_issue issues"
    by simp_all
  let ?msg = "issue_message (invalid_type path ty received)"
  have "\<exists>t1. (if path = [] then push_error fieldErrors ?msg
               else add_issue fieldErrors path ?msg) = Inr t1 \<and> is_node t1"
    using is_node_push [OF prems(2)] add_issue_node [OF prems(2) p] by (cases "path = []") simp_all
  then obtain t1 where t1: "(if path = [] then push_error fieldErrors ?msg
               else add_issue fieldErrors path ?msg) = Inr t1" "is_node t1" by blast
  from ih [OF t1(1) rest t1(2)] t1(1) show ?case by simp
next
  case (4 fieldErrors)
  then show ?case by simp
next
  case (5 error errors fieldErrors)
  note ih = 5(1,2) and prems = 5(3,4)
  from prems have e: "list_all clean_issue error" and rest: "list_all (list_all clean_issue) errors"
    by simp_all
  from ih(1) [OF e prems(2)] obtain t1 where t1: "processError error fieldErrors = Inr t1"
    "is_node t1" by blast
  from ih(2) [OF t1(1) rest t1(2)] t1(1) show ?case by simp
qed

lemma format_node:
  "list_all clean_issue issues \<Longrightarrow> \<exists>tree. format issues = Inr tree \<and> is_node tree"
  unfolding format_def by (rule processError_node(1) [OF _ is_node_empty])

lemma array_index_length: "array_index ''length'' = None"
  by (simp add: array_index_def is_digit_def)

lemma errors_replacer_other: "key \<noteq> ''_errors'' \<Longrightarrow> errors_replacer key v = Inr False"
  by (simp add: errors_replacer_def)

lemma errors_replacer_array:
  "errors_replacer ''_errors'' (JArr xs) = Inr (xs = [])"
  by (simp add: errors_replacer_def get_prop_def array_index_length)

lemma show_nat_not_errors: "show_nat i \<noteq> ''_errors''"
proof
  assume "show_nat i = ''_errors''"
  with show_nat_digits [of i] show False
    by (simp add: is_digit_def)
qed

lemma serialize_messages:
  "list_all (\<lambda>e. case e of JStr message \<Rightarrow> True | _ \<Rightarrow> False) es \<Longrightarrow>
   serialize_items errors_replacer i es = Inr es"
proof (induction es arbitrary: i)
  case Nil
  then show ?case by simp
next
  case (Cons x es)
  from Cons.prems obtain s where x: "x = JStr s" by (cases x) auto
  have "serialize errors_replacer (show_nat i) x = Inr x"
    by (simp add: x serialize_kept errors_replacer_other show_nat_not_errors)
  moreover from Cons have "serialize_items errors_replacer (Suc i) es = Inr es" by simp
  ultimately show ?case by (simp add: x)
qed

lemma serialize_reasons:
  "is_reasons r \<Longrightarrow>
   serialize errors_replacer ''_errors'' r = Inr (if r = JArr [] then JUndefined else r)"
proof -
  assume "is_reasons r"
  then obtain es where r: "r = JArr es"
    and es: "list_all (\<lambda>e. case e of JStr message \<Rightarrow> True | _ \<Rightarrow> False) es"
    by (cases r) (auto simp: is_reasons_def)
  show ?thesis
  proof (cases "es = []")
    case True
    then show ?thesis by (simp add: r serialize_omitted errors_replacer_array)
  next
    case False
    then show ?thesis
      by (simp add: r serialize_kept errors_replacer_array serialize_messages [OF es])
  qed
qed

lemma prune_node: "is_node v \<Longrightarrow> prune_spec v \<noteq> JUndefined"
  by (cases v) simp_all

lemma serialize_node_props:
  "list_all (\<lambda>(k, v). if k = ''_errors'' then is_reasons v
                       else is_node v \<and> serialize errors_replacer k v = Inr (prune_spec v)) kvs \<Longrightarrow>
   serialize_props errors_replacer kvs = Inr (prune_props kvs)"
proof (induction kvs)
  case Nil
  then show ?case by simp
next
  case (Cons kv kvs)
  obtain k v where kv: "kv = (k, v)" by (cases kv)
  from Cons have tail: "serialize_props errors_replacer kvs = Inr (prune_props kvs)"
    by simp
  show ?case
  proof (cases "k = ''_errors''")
    case True
    with Cons.prems have r: "is_reasons v" by (simp add: kv)
    then have "prune_spec v = v" by (cases v) (simp_all add: is_reasons_def)
    with serialize_reasons [OF r] tail True r show ?thesis
      by (auto simp: kv is_reasons_def)
  next
    case False
    with Cons.prems have "is_node v" "serialize errors_replacer k v = Inr (prune_spec v)"
      by (simp_all add: kv)
    with tail False prune_node [of v] show ?thesis by (simp add: kv)
  qed
qed

lemma serialize_node:
  "is_node t \<Longrightarrow> key \<noteq> ''_errors'' \<Longrightarrow> serialize errors_replacer key t = Inr (prune_spec t)"
proof (induction t arbitrary: key)
  case (JObj kvs)
  have "list_all (\<lambda>(k, v). if k = ''_errors'' then is_reasons v
                       else is_node v \<and> serialize errors_replacer k v = Inr (prune_spec v)) kvs"
    unfolding list_all_iff
  proof (intro ballI, clarify)
    fix k v assume kv: "(k, v) \<in> set kvs"
    with JObj.prems(1) have n: "if k = ''_errors'' then is_reasons v else is_node v"
      by (auto simp: list_all_iff)
    show "if k = ''_errors'' then is_reasons v
          else is_node v \<and> serialize errors_replacer k v = Inr (prune_spec v)"
    proof (cases "k = ''_errors''")
      case True
      with n show ?thesis by simp
    next
      case False
      with n have "is_node v" by simp
      moreover from JObj.IH [of "(k, v)" v k] kv this False
      have "serialize errors_replacer k v = Inr (prune_spec v)" by simp
      ultimately show ?thesis using False by simp
    qed
  qed
  then have "serialize_props errors_replacer kvs = Inr (prune_props kvs)"
    by (rule serialize_node_props)
  with JObj.prems(2) show ?case
    by (simp add: serialize_kept errors_replacer_other)
qed simp_all

lemma prune_props_ok:
  "list_all (\<lambda>(k, v). if k = ''_errors'' then is_reasons v
                       else no_empty_errors (prune_spec v)) kvs \<Longrightarrow>
   list_all (\<lambda>(k, v). \<not> (k = ''_errors'' \<and> v = JArr []) \<and> no_empty_errors v) (prune_props kvs)"
proof (induction kvs)
  case Nil
  then show ?case by simp
next
  case (Cons kv kvs)
  obtain k v where kv: "kv = (k, v)" by (cases kv)
  have p: "prune_spec v = v" if "is_reasons v"
    using that by (cases v) (simp_all add: is_reasons_def)
  have r: "no_empty_errors (prune_spec v)" if "is_reasons v"
  proof -
    from that obtain es where "v = JArr es"
      "list_all (\<lambda>e. case e of JStr message \<Rightarrow> True | _ \<Rightarrow> False) es"
      by (cases v) (auto simp: is_reasons_def)
    moreover have "no_empty_errors x" if "case x of JStr message \<Rightarrow> True | _ \<Rightarrow> False" for x
      using that by (cases x) simp_all
    ultimately show ?thesis
      by (auto simp: list_all_iff)
  qed
  from Cons r p show ?case
    by (auto simp: kv split: if_splits)
qed

lemma prune_node_ok: "is_node t \<Longrightarrow> no_empty_errors (prune_spec t)"
proof (induction t)
  case (JObj kvs)
  have "list_all (\<lambda>(k, v). if k = ''_errors'' then is_reasons v
                       else no_empty_errors (prune_spec v)) kvs"
    unfolding list_all_iff
  proof (intro ballI, clarify)
    fix k v assume kv: "(k, v) \<in> set kvs"
    with JObj.prems have n: "if k = ''_errors'' then is_reasons v else is_node v"
      by (auto simp: list_all_iff)
    show "if k = ''_errors'' then is_reasons v else no_empty_errors (prune_spec v)"
    proof (cases "k = ''_errors''")
      case True
      with n show ?thesis by simp
    next
      case False
      with n have "is_node v" by simp
      with JObj.IH [of "(k, v)" v] kv False show ?thesis by simp
    qed
  qed
  then have "list_all (\<lambda>(k, v). \<not> (k = ''_errors'' \<and> v = JArr []) \<and> no_empty_errors v)
      (prune_props kvs)"
    by (rule prune_props_ok)
  then show ?case by simp
qed simp_all

lemma stringify_node:
  assumes "is_node tree"
  shows "JSON_stringify num tree errors_replacer gap
    = Inr (JStr (json_text num gap [] (prune_spec tree)))"
proof -
  from assms obtain kvs where "tree = JObj kvs" by (cases tree) auto
  with serialize_node [OF assms, of "[]"] show ?thesis
    by (simp add: JSON_stringify_def)
qed

lemma digits_ordinary: "list_all is_digit k \<Longrightarrow> k \<noteq> [] \<Longrightarrow> ordinary_key k"
  by (cases k) (auto simp: ordinary_key_def is_digit_def)

lemma show_nat_nonempty: "show_nat n \<noteq> []"
  by (subst show_nat.simps) simp

lemma show_nat_ordinary: "ordinary_key (show_nat n)"
  by (rule digits_ordinary [OF show_nat_digits show_nat_nonempty])

lemma indexed_keys: "(i, x) \<in> set (indexed n xs) \<Longrightarrow> ordinary_key i"
  by (induction xs arbitrary: n) (auto simp: show_nat_ordinary)

lemma options_clean:
  "\<forall>s \<in> set options. list_all clean_issue (fst (parse s p v)) \<Longrightarrow>
   list_all (list_all clean_issue) errs \<Longrightarrow> list_all ordinary_key p \<Longrightarrow>
   list_all clean_issue (fst (parse_options options p v errs))"
proof (induction options arbitrary: errs)
  case Nil
  then show ?case by simp
next
  case (Cons s options)
  obtain issues r where sr: "parse s p v = (issues, r)" by (cases "parse s p v")
  with Cons.prems have i: "list_all clean_issue issues" by simp
  show ?case
  proof (cases r)
    case None
    have "list_all clean_issue
       (fst (parse_options options p v (if issues = [] then errs else errs @ [issues])))"
      using Cons.prems i by (intro Cons.IH) auto
    with None sr show ?thesis by simp
  next
    case (Some out)
    with sr show ?thesis by simp
  qed
qed

lemma parse_clean:
  "fixed_paths s \<Longrightarrow> list_all ordinary_key p \<Longrightarrow> list_all clean_issue (fst (parse s p v))"
proof (induction s arbitrary: p v)
  case (ZArray s)
  show ?case
  proof (cases v)
    case (JArr xs)
    have "list_all clean_issue (fst (parse s (p @ [i]) x))" if "(i, x) \<in> set (indexed 0 xs)" for i x
      using ZArray indexed_keys [OF that] by simp
    then show ?thesis
      by (auto simp: JArr list_all_iff simp del: parse.simps(1-6,8-10))
  qed (use ZArray.prems in simp_all)
next
  case (ZRecord s)
  then have s: "s = ZAny" by simp
  show ?case
  proof (cases v)
    case (JObj kvs)
    then show ?thesis
      by (auto simp: s list_all_iff)
  qed (use ZRecord.prems in simp_all)
next
  case (ZObject shape)
  show ?case
  proof (cases v)
    case (JObj kvs)
    have "list_all clean_issue (fst (parse s (p @ [k]) (js_get v k)))" if "(k, s) \<in> set shape" for k s
      using ZObject.IH [of "(k, s)" s "p @ [k]" "js_get v k"] that ZObject.prems by auto
    then have "list_all clean_issue (fst (parse_shape shape p v))"
      unfolding parse_shape_fst by (auto simp: list_all_iff)
    then show ?thesis
      by (auto simp: JObj split: prod.splits)
  qed (use ZObject.prems in simp_all)
next
  case (ZUnion options)
  have "list_all clean_issue (fst (parse_options options p v []))"
    using ZUnion by (intro options_clean) auto
  then show ?case by simp
qed (auto simp: expect_def)

lemma fixed_paths_service: "fixed_paths (ZArray service_schema)"
  by (simp add: service_schema_def icon_schema_def status_schema_def nullish_def ordinary_key_def)

lemma fixed_paths_tags: "fixed_paths (ZOptional (ZArray tag_schema))"
  by (simp add: tag_schema_def ordinary_key_def)

lemma parse_record_fst:
  "fst (parse (ZRecord s) p (JObj kvs)) = concat (map (\<lambda>(k, x). fst (parse s (p @ [k]) x)) kvs)"
  by (simp add: Let_def comp_def case_prod_unfold)

lemma record_clean:
  assumes "case v of JObj groups \<Rightarrow> list_all (\<lambda>(title, items). ordinary_key title) groups
           | _ \<Rightarrow> True"
    and "list_all ordinary_key p" and "fixed_paths s"
  shows "list_all clean_issue (fst (parse (ZRecord s) p v))"
proof (cases v)
  case (JObj groups)
  have "list_all clean_issue (fst (parse s (p @ [k]) x))" if "(k, x) \<in> set groups" for k x
    using assms that by (intro parse_clean) (auto simp: JObj list_all_iff)
  then show ?thesis
    unfolding JObj parse_record_fst by (auto simp: list_all_iff)
qed (use assms in simp_all)

lemma services_clean:
  assumes "case v of JObj groups \<Rightarrow> list_all (\<lambda>(title, items). ordinary_key title) groups
           | _ \<Rightarrow> True"
  shows "list_all clean_issue
    (fst (parse (ZUnion [ZArray service_schema, ZRecord (ZArray service_schema)]) [''services''] v))"
proof -
  have p: "list_all ordinary_key [''services'']"
    by (simp add: ordinary_key_def)
  have "list_all clean_issue (fst (parse (ZArray service_schema) [''services''] v))"
    using fixed_paths_service p by (rule parse_clean)
  moreover have "list_all clean_issue (fst (parse (ZRecord (ZArray service_schema)) [''services''] v))"
    using assms p fixed_paths_service by (rule record_clean)
  ultimately have "list_all clean_issue
    (fst (parse_options [ZArray service_schema, ZRecord (ZArray service_schema)] [''services''] v []))"
    using p by (intro options_clean) simp_all
  then show ?thesis by simp
qed

lemma schema_issues_clean:
  assumes "group_titles_ordinary config"
  shows "list_all clean_issue (fst (parse schema [] config))"
proof (cases config)
  case (JObj kvs)
  have o: "list_all clean_issue (fst (parse s [k] v))" if "fixed_paths s" "ordinary_key k" for s k v
    using that by (intro parse_clean) simp_all
  have "list_all clean_issue (fst (parse (ZUnion [ZArray service_schema, ZRecord (ZArray service_schema)])
      [''services''] (js_get config ''services'')))"
    using assms unfolding group_titles_ordinary_def by (rule services_clean)
  moreover have "list_all clean_issue (fst (parse (ZOptional ZString) [k] v))" if "ordinary_key k" for k v
    using that by (intro o) simp_all
  moreover have "list_all clean_issue (fst (parse (ZOptional ZBoolean) [k] v))" if "ordinary_key k" for k v
    using that by (intro o) simp_all
  moreover have "list_all clean_issue (fst (parse (ZOptional (ZArray tag_schema)) [k] v))"
    if "ordinary_key k" for k v
    using that fixed_paths_tags by (intro o)
  ultimately have "list_all clean_issue (fst (parse_shape
      [(''title'', ZOptional ZString),
       (''lang'', ZOptional ZString),
       (''theme'', ZOptional ZString),
       (''checkUpdates'', ZOptional ZBoolean),
       (''tags'', ZOptional (ZArray tag_schema)),
       (''services'', ZUnion [ZArray service_schema, ZRecord (ZArray service_schema)])] [] config))"
    unfolding parse_shape_fst
    by (simp add: ordinary_key_def del: parse.simps js_get.simps)
  then show ?thesis
    unfolding schema_def JObj parse_object by simp
qed (simp_all add: schema_def)

lemma validate_issues_clean:
  "validateConfigSchema config = Inl (ZodError issues) \<Longrightarrow> group_titles_ordinary config \<Longrightarrow>
   list_all clean_issue issues"
  using schema_issues_clean [of config]
  by (auto simp: validateConfigSchema_def split: prod.splits option.splits)

lemma catch_schema_failure:
  assumes "list_all clean_issue issues"
  shows "\<exists>tree. format issues = Inr tree \<and> is_node tree
    \<and> catch_block e (ZodError issues) =
        Inr (set_error (JStr (json_text (numberToString e) '' '' [] (prune_spec tree)))
               getDefaultConfig)"
proof -
  from format_node [OF assms] obtain tree where t: "format issues = Inr tree" "is_node tree"
    by blast
  then show ?thesis
    by (simp add: catch_block_def stringify_node)
qed

lemma node_at_undefined: "node_at JUndefined p = JUndefined"
  by (induction p) simp_all

lemma reasons_at_undefined: "reasons_at JUndefined p = []"
  by (simp add: reasons_at_def node_at_undefined)

lemma reasons_at_empty: "list_all ordinary_key p \<Longrightarrow> reasons_at empty_node p = []"
  by (cases p) (auto simp: reasons_at_def empty_node_def node_at_undefined ordinary_not_errors)

lemma reasons_at_Cons: "reasons_at t (k # p) = reasons_at (js_get t k) p"
  by (simp add: reasons_at_def)

lemma push_reasons:
  assumes "is_node node" and "push_error node msg = Inr node'" and "list_all ordinary_key p"
  shows "reasons_at node' p = reasons_at node p @ (if p = [] then [JStr msg] else [])"
proof -
  from assms(1) obtain kvs where node: "node = JObj kvs"
    by (cases node) auto
  from assms(1) obtain r where r: "map_of kvs ''_errors'' = Some r"
    by (auto simp: node)
  with assms(1) map_of_SomeD [OF r] have "is_reasons r"
    by (auto simp: node list_all_iff)
  then obtain es where es: "r = JArr es"
    by (cases r) (auto simp: is_reasons_def)
  from assms(2) have node': "node' = JObj (obj_set ''_errors'' (JArr (es @ [JStr msg])) kvs)"
    by (simp add: push_error_def node r es)
  show ?thesis
  proof (cases p)
    case Nil
    then show ?thesis
      by (simp add: reasons_at_def node' node r es map_of_obj_set)
  next
    case (Cons k p')
    with assms(3) have "k \<noteq> ''_errors''" by (simp add: ordinary_not_errors)
    then have "js_get node' k = js_get node k"
      unfolding node' node js_get_obj_set by simp
    then show ?thesis
      by (simp add: Cons reasons_at_Cons)
  qed
qed

lemma add_issue_reasons:
  "is_node cur \<Longrightarrow> list_all ordinary_key q \<Longrightarrow> q \<noteq> [] \<Longrightarrow> add_issue cur q msg = Inr cur' \<Longrightarrow>
   list_all ordinary_key p \<Longrightarrow>
   reasons_at cur' p = reasons_at cur p @ (if p = q then [JStr msg] else [])"
proof (induction q arbitrary: cur cur' p)
  case Nil
  then show ?case by simp
next
  case (Cons el path)
  from Cons.prems obtain kvs where cur: "cur = JObj kvs"
    by (cases cur) auto
  from Cons.prems have el: "el \<noteq> ''_errors''"
    by (simp add: ordinary_not_errors)
  define child where "child = js_or (js_get cur el) empty_node"
  have child: "is_node child"
    using Cons.prems(1) el unfolding child_def cur by (rule is_node_child)
  have "\<exists>child'. (if path = [] then push_error child msg else add_issue child path msg) = Inr child'"
    using is_node_push [OF child, of msg] add_issue_node [OF child, of path msg] Cons.prems(2)
    by (cases "path = []") auto
  then obtain child' where
    c: "(if path = [] then push_error child msg else add_issue child path msg) = Inr child'"
    by blast
  have "add_issue cur (el # path) msg = Inr (JObj (obj_set el child' kvs))"
    using c unfolding child_def cur by (auto simp: Let_def simp del: js_get.simps)
  with Cons.prems(4) have cur': "cur' = JObj (obj_set el child' kvs)" by simp
  have step: "reasons_at child' p' = reasons_at child p' @ (if p' = path then [JStr msg] else [])"
    if "list_all ordinary_key p'" for p'
  proof (cases "path = []")
    case True
    with c have "push_error child msg = Inr child'" by simp
    from push_reasons [OF child this that] True show ?thesis by auto
  next
    case False
    with c have "add_issue child path msg = Inr child'" by simp
    from Cons.IH [OF child _ False this that] Cons.prems(2) show ?thesis by simp
  qed
  have old: "reasons_at child p' = reasons_at (js_get cur el) p'" if "list_all ordinary_key p'" for p'
  proof (cases "truthy (js_get cur el)")
    case True
    then show ?thesis by (simp add: child_def js_or_def)
  next
    case False
    then have "js_get cur el = JUndefined"
      using Cons.prems(1) el is_node_child [of kvs el] is_node_truthy
      by (cases "map_of kvs el") (auto simp: cur list_all_iff dest!: map_of_SomeD)
    with that show ?thesis
      by (simp add: child_def js_or_def reasons_at_empty reasons_at_undefined)
  qed
  show ?case
  proof (cases p)
    case Nil
    with el show ?thesis
      by (simp add: reasons_at_def cur' cur map_of_obj_set)
  next
    case (Cons k p')
    with Cons.prems(5) have p': "list_all ordinary_key p'" by simp
    show ?thesis
    proof (cases "k = el")
      case True
      have "js_get cur' k = child'"
        unfolding cur' js_get_obj_set using True by simp
      with step [OF p'] old [OF p'] True show ?thesis
        by (simp add: Cons reasons_at_Cons)
    next
      case False
      have "js_get cur' k = js_get cur k"
        unfolding cur' cur js_get_obj_set using False by simp
      with False show ?thesis
        by (simp add: Cons reasons_at_Cons)
    qed
  qed
qed

lemma reasons_of_simps:
  "reasons_of [] p = []"
  "reasons_of (invalid_type path ty received # issues) p =
     (if path = p then [JStr (issue_message (invalid_type path ty received))] else [])
       @ reasons_of issues p"
  "reasons_of (invalid_union path unionErrors # issues) p =
     union_reasons_of unionErrors p @ reasons_of issues p"
  "union_reasons_of [] p = []"
  "union_reasons_of (error # errors) p = reasons_of error p @ union_reasons_of errors p"
  by (simp_all add: reasons_of_def union_reasons_of_def)

lemma processError_reasons:
  "list_all clean_issue issues \<Longrightarrow> is_node t \<Longrightarrow> processError issues t = Inr t' \<Longrightarrow>
   list_all ordinary_key p \<Longrightarrow> reasons_at t' p = reasons_at t p @ reasons_of issues p"
  "list_all (list_all clean_issue) errs \<Longrightarrow> is_node t \<Longrightarrow> processErrors errs t = Inr t' \<Longrightarrow>
   list_all ordinary_key p \<Longrightarrow> reasons_at t' p = reasons_at t p @ union_reasons_of errs p"
proof (induction issues t and errs t arbitrary: t' and t' rule: processError_processErrors.induct)
  case (1 fieldErrors)
  then show ?case by (simp add: reasons_of_simps)
next
  case (2 path unionErrors issues fieldErrors)
  note ih = 2(1,2) and prems = 2(3-6)
  from prems have u: "list_all (list_all clean_issue) unionErrors"
    and rest: "list_all clean_issue issues" by simp_all
  from processError_node(2) [OF u prems(2)] obtain t1 where
    t1: "processErrors unionErrors fieldErrors = Inr t1" "is_node t1" by blast
  with prems(3) have t': "processError issues t1 = Inr t'" by simp
  from ih(1) [OF u prems(2) t1(1) prems(4)] ih(2) [OF t1(1) rest t1(2) t' prems(4)]
  show ?case by (simp add: reasons_of_simps)
next
  case (3 path ty received issues fieldErrors)
  note ih = 3(1) and prems = 3(2-5)
  from prems have q: "list_all ordinary_key path" and rest: "list_all clean_issue issues"
    by simp_all
  let ?msg = "issue_message (invalid_type path ty received)"
  have "\<exists>t1. (if path = [] then push_error fieldErrors ?msg
               else add_issue fieldErrors path ?msg) = Inr t1 \<and> is_node t1"
    using is_node_push [OF prems(2)] add_issue_node [OF prems(2) q] by (cases "path = []") simp_all
  then obtain t1 where t1: "(if path = [] then push_error fieldErrors ?msg
               else add_issue fieldErrors path ?msg) = Inr t1" "is_node t1" by blast
  with prems(3) have t': "processError issues t1 = Inr t'" by simp
  have "reasons_at t1 p = reasons_at fieldErrors p @ (if path = p then [JStr ?msg] else [])"
  proof (cases "path = []")
    case True
    with t1 have "push_error fieldErrors ?msg = Inr t1" by simp
    from push_reasons [OF prems(2) this prems(4)] True show ?thesis by auto
  next
    case False
    with t1 have "add_issue fieldErrors path ?msg = Inr t1" by simp
    from add_issue_reasons [OF prems(2) q False this prems(4)] show ?thesis by auto
  qed
  with ih [OF t1(1) rest t1(2) t' prems(4)] show ?case
    by (simp add: reasons_of_simps)
next
  case (4 fieldErrors)
  then show ?case by (simp add: reasons_of_simps)
next
  case (5 error errors fieldErrors)
  note ih = 5(1,2) and prems = 5(3-6)
  from prems have e: "list_all clean_issue error" and rest: "list_all (list_all clean_issue) errors"
    by simp_all
  from processError_node(1) [OF e prems(2)] obtain t1 where
    t1: "processError error fieldErrors = Inr t1" "is_node t1" by blast
  with prems(3) have t': "processErrors errors t1 = Inr t'" by simp
  from ih(1) [OF e prems(2) t1(1) prems(4)] ih(2) [OF t1(1) rest t1(2) t' prems(4)]
  show ?case by (simp add: reasons_of_simps)
qed

lemma format_reasons:
  assumes "list_all clean_issue issues" and "format issues = Inr tree" and "list_all ordinary_key p"
  shows "reasons_at tree p = reasons_of issues p"
  using processError_reasons(1) [OF assms(1) is_node_empty assms(2) [unfolded format_def] assms(3)]
  by (simp add: reasons_at_empty [OF assms(3)])

lemma prune_props_keys: "fst ` set (prune_props kvs) \<subseteq> fst ` set kvs"
  by (induction kvs) (auto 4 3 split: if_splits)

lemma map_of_prune_props:
  "distinct (map fst kvs) \<Longrightarrow>
   map_of (prune_props kvs) k =
     (case map_of kvs k of
        None \<Rightarrow> None
      | Some v \<Rightarrow> if k = ''_errors'' \<and> v = JArr [] then None else Some (prune_spec v))"
proof (induction kvs)
  case Nil
  then show ?case by simp
next
  case (Cons kv kvs)
  obtain k0 v0 where kv: "kv = (k0, v0)" by (cases kv)
  from Cons.prems have fresh: "k0 \<notin> fst ` set kvs" and d: "distinct (map fst kvs)"
    by (simp_all add: kv)
  from fresh prune_props_keys [of kvs] have "map_of (prune_props kvs) k0 = None"
    by (auto simp: map_of_eq_None_iff)
  with Cons.IH [OF d] show ?case
    by (auto simp: kv)
qed

lemma prune_reasons:
  "is_node t \<Longrightarrow> list_all ordinary_key p \<Longrightarrow>
   js_get (node_at (prune_spec t) p) ''_errors'' =
     (if reasons_at t p = [] then JUndefined else JArr (reasons_at t p))"
proof (induction p arbitrary: t)
  case Nil
  from Nil.prems obtain kvs where t: "t = JObj kvs"
    by (cases t) auto
  from Nil.prems obtain r where r: "map_of kvs ''_errors'' = Some r"
    by (auto simp: t)
  with Nil.prems map_of_SomeD [OF r] have "is_reasons r"
    by (auto simp: t list_all_iff)
  then obtain es where es: "r = JArr es"
    by (cases r) (auto simp: is_reasons_def)
  from Nil.prems have d: "distinct (map fst kvs)" by (simp add: t)
  show ?case
    by (simp add: t reasons_at_def map_of_prune_props [OF d] r es)
next
  case (Cons k p)
  from Cons.prems obtain kvs where t: "t = JObj kvs"
    by (cases t) auto
  from Cons.prems have d: "distinct (map fst kvs)" by (simp add: t)
  from Cons.prems have k: "k \<noteq> ''_errors''" and p: "list_all ordinary_key p"
    by (simp_all add: ordinary_not_errors)
  show ?case
  proof (cases "map_of kvs k")
    case None
    then show ?thesis
      by (simp add: t reasons_at_def map_of_prune_props [OF d] node_at_undefined)
  next
    case (Some v)
    with Cons.prems(1) k map_of_SomeD [OF Some] have "is_node v"
      by (auto simp: t list_all_iff)
    from Cons.IH [OF this p] Some k show ?thesis
      by (simp add: t reasons_at_def map_of_prune_props [OF d])
  qed
qed

section \<open>Properties of the order of a mapping\<close>

lemma declared_object_snoc:
  "declared_object (entries @ [(k, v)]) = obj_set k v (declared_object entries)"
  by (simp add: declared_object_def)

lemma insert_index_sorted:
  assumes "array_index k = Some i"
  shows "list_all is_index ixs \<Longrightarrow> list_all (\<lambda>kv. \<not> is_index kv) others \<Longrightarrow>
    sorted (map index_of ixs) \<Longrightarrow>
    \<exists>ixs'. insert_index i k v (ixs @ others) = ixs' @ others
      \<and> list_all is_index ixs' \<and> sorted (map index_of ixs')
      \<and> set ixs' = insert (k, v) (set ixs)"
proof (induction ixs)
  case Nil
  have "insert_index i k v others = (k, v) # others"
    using Nil.prems(2) by (cases others) (auto simp: is_index_def)
  with assms show ?case
    by (intro exI [of _ "[(k, v)]"]) (simp add: is_index_def)
next
  case (Cons kv ixs)
  obtain k' v' where kv: "kv = (k', v')" by (cases kv)
  from Cons.prems obtain j where j: "array_index k' = Some j"
    by (auto simp: kv is_index_def)
  show ?case
  proof (cases "j < i")
    case True
    from Cons obtain ixs' where
      ixs': "insert_index i k v (ixs @ others) = ixs' @ others" "list_all is_index ixs'"
        "sorted (map index_of ixs')" "set ixs' = insert (k, v) (set ixs)"
      by auto
    have "index_of kv \<le> index_of x" if "x \<in> set ixs'" for x
      using that ixs'(4) Cons.prems(3) True assms j by (auto simp: kv index_of_def)
    with ixs' Cons.prems(1) True j show ?thesis
      by (intro exI [of _ "kv # ixs'"]) (auto simp: kv)
  next
    case False
    then have "index_of (k, v) \<le> index_of x" if "x \<in> set (kv # ixs)" for x
      using that Cons.prems(3) assms j by (fastforce simp: kv index_of_def)
    with Cons.prems False j assms show ?thesis
      by (intro exI [of _ "(k, v) # kv # ixs"]) (auto simp: kv is_index_def)
  qed
qed

lemma declared_object_enumeration:
  "distinct (map fst entries) \<Longrightarrow>
   \<exists>ixs. declared_object entries = ixs @ filter (\<lambda>kv. \<not> is_index kv) entries
     \<and> list_all is_index ixs \<and> sorted (map index_of ixs)
     \<and> set ixs = set (filter is_index entries)"
proof (induction entries rule: rev_induct)
  case Nil
  then show ?case by (simp add: declared_object_def)
next
  case (snoc kv entries)
  obtain k v where kv: "kv = (k, v)" by (cases kv)
  from snoc.prems have d: "distinct (map fst entries)" and fresh: "k \<notin> fst ` set entries"
    by (simp_all add: kv)
  from snoc.IH [OF d] obtain ixs where
    ixs: "declared_object entries = ixs @ filter (\<lambda>kv. \<not> is_index kv) entries"
      "list_all is_index ixs" "sorted (map index_of ixs)"
      "set ixs = set (filter is_index entries)"
    by blast
  have "set (declared_object entries) \<subseteq> set entries"
    unfolding ixs(1) using ixs(4) by auto
  with fresh have new: "map_of (declared_object entries) k = None"
    by (force simp: map_of_eq_None_iff)
  show ?case
  proof (cases "array_index k")
    case None
    with new have "declared_object (entries @ [kv]) = declared_object entries @ [(k, v)]"
      by (simp add: kv declared_object_snoc obj_set_def)
    moreover from None have "\<not> is_index kv"
      by (simp add: kv is_index_def)
    ultimately show ?thesis
      using ixs by (intro exI [of _ ixs]) (simp add: kv)
  next
    case (Some i)
    with new have "declared_object (entries @ [kv]) = insert_index i k v (declared_object entries)"
      by (simp add: kv declared_object_snoc obj_set_def)
    moreover from insert_index_sorted [OF Some ixs(2) _ ixs(3), of "filter (\<lambda>kv. \<not> is_index kv) entries" v]
    obtain ixs' where "insert_index i k v (ixs @ filter (\<lambda>kv. \<not> is_index kv) entries)
          = ixs' @ filter (\<lambda>kv. \<not> is_index kv) entries"
      "list_all is_index ixs'" "sorted (map index_of ixs')" "set ixs' = insert (k, v) (set ixs)"
      by (auto simp: list_all_iff)
    moreover from Some have "is_index kv"
      by (simp add: kv is_index_def)
    ultimately show ?thesis
      using ixs(1,4) by (intro exI [of _ ixs']) (auto simp: kv)
  qed
qed

lemma declared_object_order:
  assumes "distinct (map fst entries)"
  shows "enumeration_of entries (declared_object entries)"
proof -
  from declared_object_enumeration [OF assms] obtain ixs where
    ixs: "declared_object entries = ixs @ filter (\<lambda>kv. \<not> is_index kv) entries"
      "list_all is_index ixs" "sorted (map index_of ixs)"
      "set ixs = set (filter is_index entries)"
    by blast
  from ixs(2) have "filter is_index ixs = ixs"
    by (simp add: list_all_iff)
  then have "filter is_index (declared_object entries) = ixs"
    by (simp add: ixs(1))
  with ixs show ?thesis
    by (simp add: enumeration_of_def)
qed

lemma declared_object_plain:
  assumes "distinct (map fst entries)" and "list_all (\<lambda>kv. \<not> is_index kv) entries"
  shows "declared_object entries = entries"
proof -
  from assms(2) have "filter is_index entries = []" "filter (\<lambda>kv. \<not> is_index kv) entries = entries"
    by (simp_all add: list_all_iff)
  moreover from declared_object_order [OF assms(1)]
  have e: "declared_object entries
      = filter is_index (declared_object entries) @ filter (\<lambda>kv. \<not> is_index kv) entries"
    and "set (filter is_index (declared_object entries)) = set (filter is_index entries)"
    by (simp_all add: enumeration_of_def)
  ultimately have "filter is_index (declared_object entries) = []"
    by (auto simp: filter_empty_conv)
  with e \<open>filter (\<lambda>kv. \<not> is_index kv) entries = entries\<close> show ?thesis
    by simp
qed

lemma declared_numbered:
  "declared_object [(''b'', JArr []), (''10'', JArr []), (''2'', JArr [])]
     = [(''2'', JArr []), (''10'', JArr []), (''b'', JArr [])]"
  by (simp add: declared_object_def eval_simps)

lemma load_numbered_groups:
  "loadLocalConfig (env_of doc_numbered_groups) = Inr config_numbered_groups"
proof -
  have t: "createTagMap (js_or (js_get doc_numbered_groups ''tags'') (JArr [])) = Inr Map.empty"
    by (simp add: createTagMap_def js_or_def doc_numbered_groups_def)
  have v: "validateConfigSchema doc_numbered_groups =
      Inr (JObj [(''services'', JObj [(''2'', JArr []), (''10'', JArr []), (''b'', JArr [])])])"
    by (simp add: doc_numbered_groups_def declared_numbered validateConfigSchema_def schema_def
        service_schema_def nullish_def icon_schema_def status_schema_def tag_schema_def eval_simps)
  have n: "normalize_services (randomUUID (env_of doc_numbered_groups)) Map.empty
      (js_get doc_numbered_groups ''services'') =
    Inr [JObj [(''title'', JStr ''2''), (''items'', JArr [])],
         JObj [(''title'', JStr ''10''), (''items'', JArr [])],
         JObj [(''title'', JStr ''b''), (''items'', JArr [])]]"
    by (simp add: doc_numbered_groups_def declared_numbered env_of_def normalize_services_def
      determineService_def js_or_def)
  have "truthy doc_numbered_groups"
    by (simp add: doc_numbered_groups_def)
  from load_env_of(2) [OF this t v n] show ?thesis
    by (simp add: doc_numbered_groups_def declared_numbered config_numbered_groups_def defu_def
        defu1_def getDefaultConfig_def eval_simps)
qed

section \<open>Properties of the validated value\<close>

lemma well_formed_get: "well_formed v \<Longrightarrow> well_formed (js_get v k)"
proof (cases v)
  case (JObj kvs)
  assume "well_formed v"
  then show ?thesis
    by (cases "map_of kvs k") (auto simp: JObj list_all_iff dest!: map_of_SomeD)
next
  case (JArr xs)
  assume "well_formed v"
  then show ?thesis
    by (auto simp: JArr list_all_iff split: option.splits)
qed (auto split: option.splits)

lemma mergeObjectSync_distinct:
  "mergeObjectSync pairs acc = Some (JObj kvs') \<Longrightarrow> distinct (map fst acc) \<Longrightarrow>
   distinct (map fst kvs')"
  by (induction pairs acc rule: mergeObjectSync.induct) (auto simp: distinct_obj_set split: if_splits)

lemma parse_undefined:
  "snd (parse s p JUndefined) = Some x \<Longrightarrow> x = JUndefined"
  using parse_restriction(1) [of s p JUndefined x] by (simp add: restriction_of_undefined)

lemma object_key_set:
  assumes "snd (parse (ZObject shape) p v) = Some out"
  shows "has_key out k \<longleftrightarrow> has_key v k \<and> k \<in> fst ` set shape \<and> k \<noteq> ''__proto__''"
proof -
  from assms(1) obtain kvs where v: "v = JObj kvs"
    by (cases v) auto
  define pairs where "pairs = snd (parse_shape shape p v)"
  from assms(1) have m0: "mergeObjectSync pairs [] = Some out"
    by (simp add: v pairs_def split: prod.splits)
  then obtain kvs' where out: "out = JObj kvs'"
    using mergeObjectSync_obj by blast
  have all: "list_all (\<lambda>(k, r, a). r \<noteq> None) pairs"
    using m0 mergeObjectSync_accepts [of pairs "[]"] by simp
  have pairs: "pairs = map (\<lambda>(k, s). (k, snd (parse s (p @ [k]) (js_get v k)), has_key v k)) shape"
    by (simp add: pairs_def parse_shape_snd)
  have "(\<exists>x a. (k, Some x, a) \<in> set pairs \<and> k \<noteq> ''__proto__'' \<and> (x \<noteq> JUndefined \<or> a))
        \<longleftrightarrow> has_key v k \<and> k \<in> fst ` set shape \<and> k \<noteq> ''__proto__''" (is "?l \<longleftrightarrow> ?r")
  proof
    assume ?l
    then obtain x a where pair: "(k, Some x, a) \<in> set pairs" and set: "x \<noteq> JUndefined \<or> a"
      and proto: "k \<noteq> ''__proto__''"
      by blast
    from pair obtain s where k: "(k, s) \<in> set shape" and a: "a = has_key v k"
      and x: "snd (parse s (p @ [k]) (js_get v k)) = Some x"
      by (auto simp: pairs)
    have "has_key v k"
    proof (rule ccontr)
      assume n: "\<not> has_key v k"
      then have "js_get v k = JUndefined"
        by (cases "map_of kvs k") (auto simp: v has_key_def)
      with x parse_undefined have "x = JUndefined" by metis
      with set a n show False by simp
    qed
    with k proto show ?r by force
  next
    assume ?r
    then obtain s where ks: "(k, s) \<in> set shape" and has: "has_key v k"
      and proto: "k \<noteq> ''__proto__''"
      by auto
    then have "(k, snd (parse s (p @ [k]) (js_get v k)), True) \<in> set pairs"
      by (force simp: pairs)
    moreover from this all obtain x where "snd (parse s (p @ [k]) (js_get v k)) = Some x"
      by (auto simp: list_all_iff)
    ultimately show ?l using proto by auto
  qed
  with mergeObjectSync_has [OF m0 [unfolded out], of k] show ?thesis
    by (simp add: out has_key_def)
qed

lemma parse_stripped:
  "snd (parse s p v) = Some out \<Longrightarrow> well_formed v \<Longrightarrow> stripped s v out"
  "(k, Some x', a) \<in> set (snd (parse_shape shape p v)) \<Longrightarrow> well_formed v \<Longrightarrow>
     list_ex (\<lambda>(k', s). k' = k \<and> stripped s (js_get v k) x') shape"
  "snd (parse_options opts p v errs) = Some out \<Longrightarrow> well_formed v \<Longrightarrow>
     list_ex (\<lambda>s. stripped s v out) opts"
proof (induction s p v and shape p v and opts p v errs arbitrary: out and k x' a and out
    rule: parse_parse_shape_parse_options.induct)
  case (7 s path v)
  from "7.prems" obtain xs where v: "v = JArr xs"
    by (cases v) auto
  define rs where "rs = map (\<lambda>(i, x). parse s (path @ [i]) x) (indexed 0 xs)"
  from "7.prems" obtain outs where out: "out = JArr outs"
    and m: "mergeArray (map snd rs) = Some outs"
    by (auto simp: v rs_def)
  from mergeArray_Some [OF m] have rs: "map snd rs = map Some outs" .
  then have len: "length outs = length xs"
    by (metis length_map rs_def length_indexed)
  have "stripped s (xs ! j) (outs ! j)" if j: "j < length xs" for j
  proof -
    have "snd (rs ! j) = Some (outs ! j)"
      using rs j len by (metis length_map nth_map)
    then have "snd (parse s (path @ [show_nat j]) (xs ! j)) = Some (outs ! j)"
      using j by (simp add: rs_def length_indexed nth_indexed)
    moreover have "(show_nat j, xs ! j) \<in> set (indexed 0 xs)"
      using j nth_indexed [of j xs 0] by (metis add_0 length_indexed nth_mem)
    moreover have "well_formed (xs ! j)"
      using "7.prems"(2) j by (simp add: v list_all_length)
    ultimately show ?thesis
      using "7.IH" [OF v _ refl] by blast
  qed
  then show ?case
    by (simp add: out v list_all2_conv_all_nth len)
next
  case (8 s path v)
  from "8.prems" obtain kvs where v: "v = JObj kvs"
    by (cases v) auto
  from "8.prems"(2) have d: "distinct (map fst kvs)" and wf: "list_all (\<lambda>(k, x). well_formed x) kvs"
    by (simp_all add: v)
  define pairs where
    "pairs = map (\<lambda>(k, x). (k, snd (parse s (path @ [k]) x), True)) kvs"
  from "8.prems" have m0: "mergeObjectSync pairs [] = Some out"
    by (simp add: v pairs_def comp_def case_prod_unfold)
  then obtain kvs' where out: "out = JObj kvs'"
    using mergeObjectSync_obj by blast
  note m = m0 [unfolded out]
  have all: "list_all (\<lambda>(k, r, a). r \<noteq> None) pairs"
    using m0 mergeObjectSync_accepts [of pairs "[]"] by simp
  have keys: "k \<in> fst ` set kvs' \<longleftrightarrow> k \<in> fst ` set kvs \<and> k \<noteq> ''__proto__''" for k
  proof -
    have "(\<exists>x a. (k, Some x, a) \<in> set pairs \<and> k \<noteq> ''__proto__'' \<and> (x \<noteq> JUndefined \<or> a))
        \<longleftrightarrow> k \<in> fst ` set kvs \<and> k \<noteq> ''__proto__''" (is "?l \<longleftrightarrow> ?r")
    proof
      assume ?l
      then show ?r by (force simp: pairs_def)
    next
      assume ?r
      then obtain x where x: "(k, x) \<in> set kvs" and proto: "k \<noteq> ''__proto__''" by auto
      then have "(k, snd (parse s (path @ [k]) x), True) \<in> set pairs"
        by (force simp: pairs_def)
      moreover from this all obtain x' where "snd (parse s (path @ [k]) x) = Some x'"
        by (auto simp: list_all_iff)
      ultimately show ?l using proto by auto
    qed
    with mergeObjectSync_has [OF m, of k] show ?thesis
      by (simp add: map_of_eq_None_iff)
  qed
  have vals: "stripped s (js_get v k) x'" if "(k, x') \<in> set kvs'" for k x'
  proof -
    from mergeObjectSync_set [OF m that] obtain a where "(k, Some x', a) \<in> set pairs"
      by auto
    then obtain x where x: "(k, x) \<in> set kvs" and p: "snd (parse s (path @ [k]) x) = Some x'"
      by (auto simp: pairs_def)
    from x wf have "well_formed x" by (auto simp: list_all_iff)
    with "8.IH" [OF v x refl p] have "stripped s x x'" .
    moreover from x d have "js_get v k = x" by (simp add: v)
    ultimately show ?thesis by simp
  qed
  have "distinct (map fst kvs')"
    using mergeObjectSync_distinct [OF m] by simp
  moreover have "set (map fst kvs') = set (filter (\<lambda>k. k \<noteq> ''__proto__'') (map fst kvs))"
    using keys by auto
  moreover have "list_all (\<lambda>(k, x). stripped s (js_get v k) x) kvs'"
    using vals by (auto simp: list_all_iff)
  ultimately show ?case
    by (simp add: out v del: js_get.simps)
next
  case (9 shape path v)
  from "9.prems" obtain kvs where v: "v = JObj kvs"
    by (cases v) auto
  define pairs where "pairs = snd (parse_shape shape path v)"
  from "9.prems" have m0: "mergeObjectSync pairs [] = Some out"
    by (simp add: v pairs_def split: prod.splits)
  then obtain kvs' where out: "out = JObj kvs'"
    using mergeObjectSync_obj by blast
  note m = m0 [unfolded out]
  have keys: "k \<in> fst ` set kvs' \<longleftrightarrow> k \<in> fst ` set kvs \<and> k \<in> fst ` set shape \<and> k \<noteq> ''__proto__''"
    for k
    using object_key_set [OF "9.prems"(1), of k]
    by (simp add: out v has_key_def map_of_eq_None_iff)
  have vals: "list_ex (\<lambda>(k', s). k' = k \<and> stripped s (js_get v k) x') shape"
    if "(k, x') \<in> set kvs'" for k x'
  proof -
    from mergeObjectSync_set [OF m that] obtain a where "(k, Some x', a) \<in> set pairs"
      by auto
    with "9.IH" [OF v _ "9.prems"(2)] show ?thesis
      by (simp add: pairs_def)
  qed
  have "distinct (map fst kvs')"
    using mergeObjectSync_distinct [OF m] by simp
  moreover have "set (map fst kvs')
      = set (filter (\<lambda>k. k \<in> set (map fst shape) \<and> k \<noteq> ''__proto__'') (map fst kvs))"
    using keys by auto
  moreover have
    "list_all (\<lambda>(k, x). list_ex (\<lambda>(k', s). k' = k \<and> stripped s (js_get v k) x) shape) kvs'"
    using vals by (auto simp: list_all_iff)
  ultimately show ?case
    by (simp add: out v del: js_get.simps)
next
  case (12 k s shape path v)
  then show ?case
    by (auto simp: well_formed_get split: prod.splits simp del: js_get.simps)
next
  case (14 s options path v unionErrors)
  then show ?case
    by (auto split: prod.splits option.splits)
qed (auto simp: expect_def split: if_splits)

lemma validate_nested: "validateConfigSchema doc_nested = Inr validated_nested"
  by (simp add: doc_nested_def validated_nested_def validateConfigSchema_def schema_def
      service_schema_def nullish_def icon_schema_def status_schema_def tag_schema_def eval_simps)

lemma same_value_refl: "well_formed v \<Longrightarrow> same_value v v"
proof (induction v)
  case (JObj kvs)
  have "same_value x (js_get (JObj kvs) k)" if "(k, x) \<in> set kvs" for k x
  proof -
    from JObj.prems that have "js_get (JObj kvs) k = x" by simp
    moreover from JObj.prems that have "well_formed x" by (auto simp: list_all_iff)
    ultimately show ?thesis using JObj.IH [of "(k, x)" x] that by simp
  qed
  then show ?case by (auto simp: list_all_iff simp del: js_get.simps)
next
  case (JArr xs)
  then show ?case by (auto simp: list_all_iff list_all2_conv_all_nth)
qed simp_all

lemma stripped_same_value:
  "stripped s v out \<Longrightarrow> all_named s v \<Longrightarrow> well_formed v \<Longrightarrow> same_value out v"
proof (induction s arbitrary: v out)
  case (ZArray s)
  from ZArray.prems(1) obtain xs ys where v: "v = JArr xs" and out: "out = JArr ys"
    and l: "list_all2 (stripped s) xs ys"
    by (auto split: jsval.splits)
  have "same_value (ys ! j) (xs ! j)" if "j < length xs" for j
  proof -
    from l that have "stripped s (xs ! j) (ys ! j)" by (simp add: list_all2_conv_all_nth)
    moreover from ZArray.prems(2,3) that have "all_named s (xs ! j)" "well_formed (xs ! j)"
      by (simp_all add: v list_all_length)
    ultimately show ?thesis by (rule ZArray.IH)
  qed
  with l show ?case
    by (simp add: v out list_all2_conv_all_nth)
next
  case (ZRecord s)
  from ZRecord.prems(1) obtain kvs kvs' where v: "v = JObj kvs" and out: "out = JObj kvs'"
    and keys: "set (map fst kvs') = set (filter (\<lambda>k. k \<noteq> ''__proto__'') (map fst kvs))"
    and vals: "list_all (\<lambda>(k, x). stripped s (js_get v k) x) kvs'"
    by (auto split: jsval.splits)
  from ZRecord.prems(3) have d: "distinct (map fst kvs)" by (simp add: v)
  have named: "k \<noteq> ''__proto__'' \<and> all_named s x" if "(k, x) \<in> set kvs" for k x
    using ZRecord.prems(2) that by (auto simp: v list_all_iff)
  have "same_value x' (js_get v k)" if "(k, x') \<in> set kvs'" for k x'
  proof -
    from vals that have st: "stripped s (js_get v k) x'" by (auto simp: list_all_iff)
    from that have "k \<in> set (map fst kvs')" by force
    then have "k \<in> set (map fst kvs)" unfolding keys by simp
    then obtain x where x: "(k, x) \<in> set kvs" by auto
    with d have g: "js_get v k = x" by (simp add: v)
    from named [OF x] have "all_named s (js_get v k)" by (simp add: g)
    moreover have "well_formed (js_get v k)"
      using ZRecord.prems(3) by (rule well_formed_get)
    ultimately show ?thesis using st ZRecord.IH by blast
  qed
  moreover have "filter (\<lambda>k. k \<noteq> ''__proto__'') (map fst kvs) = map fst kvs"
    using named by (auto simp: filter_id_conv)
  then have "set (map fst kvs') = set (map fst kvs)"
    unfolding keys by simp
  ultimately show ?case
    by (simp add: v out list_all_iff case_prod_unfold del: js_get.simps)
next
  case (ZObject shape)
  from ZObject.prems(1) obtain kvs kvs' where v: "v = JObj kvs" and out: "out = JObj kvs'"
    and keys: "set (map fst kvs')
        = set (filter (\<lambda>k. k \<in> set (map fst shape) \<and> k \<noteq> ''__proto__'') (map fst kvs))"
    and vals: "list_all (\<lambda>(k, x). list_ex (\<lambda>(k', s). k' = k \<and> stripped s (js_get v k) x) shape) kvs'"
    by (auto split: jsval.splits)
  from ZObject.prems(3) have d: "distinct (map fst kvs)" by (simp add: v)
  have named: "k \<noteq> ''__proto__'' \<and> k \<in> set (map fst shape)
      \<and> (\<forall>s. (k, s) \<in> set shape \<longrightarrow> all_named s x)" if "(k, x) \<in> set kvs" for k x
    using ZObject.prems(2) that by (auto simp: v list_all_iff)
  have "same_value x' (js_get v k)" if "(k, x') \<in> set kvs'" for k x'
  proof -
    from vals that obtain s where s: "(k, s) \<in> set shape" and st: "stripped s (js_get v k) x'"
      by (auto simp: list_all_iff list_ex_iff)
    from that have "k \<in> set (map fst kvs')" by force
    then have "k \<in> set (map fst kvs)" unfolding keys by simp
    then obtain x where x: "(k, x) \<in> set kvs" by auto
    with d have g: "js_get v k = x" by (simp add: v)
    from named [OF x] s have "all_named s (js_get v k)" by (simp add: g)
    moreover have "well_formed (js_get v k)"
      using ZObject.prems(3) by (rule well_formed_get)
    ultimately show ?thesis using st ZObject.IH [of "(k, s)" s] s by auto
  qed
  moreover have "filter (\<lambda>k. k \<in> set (map fst shape) \<and> k \<noteq> ''__proto__'') (map fst kvs)
      = map fst kvs"
    using named by (auto simp: filter_id_conv)
  then have "set (map fst kvs') = set (map fst kvs)"
    unfolding keys by simp
  ultimately show ?case
    by (simp add: v out list_all_iff case_prod_unfold del: js_get.simps)
next
  case (ZUnion options)
  from ZUnion.prems(1) obtain s where s: "s \<in> set options" and st: "stripped s v out"
    by (auto simp: list_ex_iff)
  from ZUnion.prems(2) s have "all_named s v"
    by (simp add: list_all_iff)
  with ZUnion.IH [OF s st] ZUnion.prems(3) show ?case by simp
next
  case (ZOptional s)
  then show ?case by (cases "v = JUndefined") simp_all
next
  case (ZNullable s)
  then show ?case by (cases "v = JNull") simp_all
qed (simp_all add: same_value_refl)

lemma validate_all_named: "validateConfigSchema doc_all_named = Inr validated_all_named"
  by (simp add: doc_all_named_def validated_all_named_def validateConfigSchema_def schema_def
      service_schema_def nullish_def icon_schema_def status_schema_def tag_schema_def eval_simps)

lemma all_named_example: "all_named schema doc_all_named"
  by (simp add: doc_all_named_def schema_def service_schema_def nullish_def icon_schema_def
      status_schema_def tag_schema_def)

section \<open>Properties of the failure paths\<close>











lemma validate_bad_types:
  "validateConfigSchema doc_bad_types = Inl (ZodError issues_bad_types)"
  by (simp add: doc_bad_types_def issues_bad_types_def validateConfigSchema_def schema_def
      service_schema_def nullish_def icon_schema_def status_schema_def tag_schema_def eval_simps)

lemma format_bad_types:
  "format issues_bad_types =
     Inr (JObj [(''_errors'', JArr []),
                (''title'', JObj [(''_errors'', JArr [JStr ''Expected string, received number''])]),
                (''services'',
                   JObj [(''_errors'', JArr [JStr ''Expected array, received object'']),
                         (''Home'',
                            JObj [(''_errors'',
                                     JArr [JStr ''Expected array, received string''])])])])"
  by (simp add: issues_bad_types_def format_def empty_node_def push_error_def eval_simps)

lemma load_bad_types:
  \<open>loadLocalConfig (env_of doc_bad_types) =
     Inr (set_error (JStr ''{\<newline> "title": {\<newline>  "_errors": [\<newline>   "Expected string, received number"\<newline>  ]\<newline> },\<newline> "services": {\<newline>  "_errors": [\<newline>   "Expected array, received object"\<newline>  ],\<newline>  "Home": {\<newline>   "_errors": [\<newline>    "Expected array, received string"\<newline>   ]\<newline>  }\<newline> }\<newline>}'')
            getDefaultConfig)\<close>
proof -
  have t: "createTagMap (js_or (js_get doc_bad_types ''tags'') (JArr [])) = Inr Map.empty"
    by (simp add: createTagMap_def js_or_def doc_bad_types_def)
  have "truthy doc_bad_types"
    by (simp add: doc_bad_types_def)
  from load_env_of(1) [OF this t validate_bad_types] show ?thesis
    by (simp add: catch_block_def format_bad_types JSON_stringify_def serialize_kept
        serialize_omitted errors_replacer_other errors_replacer_array show_nat_not_errors
        wrap_def quote_def quote_char_def)
qed


lemma validate_errors_title:
  "validateConfigSchema doc_errors_title =
      Inl (ZodError [invalid_union [''services'']
             [[invalid_type [''services''] ''array'' ''object''],
              [invalid_type [''services'', ''_errors''] ''array'' ''number'']]])"
  by (simp add: doc_errors_title_def validateConfigSchema_def schema_def
      service_schema_def nullish_def icon_schema_def status_schema_def tag_schema_def eval_simps)

lemma load_errors_title:
  "loadLocalConfig (env_of doc_errors_title) = Inl (TypeError ''_errors.push is not a function'')"
proof -
  have t: "createTagMap (js_or (js_get doc_errors_title ''tags'') (JArr [])) = Inr Map.empty"
    by (simp add: createTagMap_def js_or_def doc_errors_title_def)
  have "truthy doc_errors_title"
    by (simp add: doc_errors_title_def)
  from load_env_of(1) [OF this t validate_errors_title] show ?thesis
    by (simp add: catch_block_def format_def empty_node_def push_error_def eval_simps)
qed



text \<open>
  The report of a schema failure, for a document whose group names are ordinary keys.
  The configuration returned is the default one with an \<^verbatim>\<open>error\<close> that is the text,
  indented by one space per level, of a report: the tree that \<^verbatim>\<open>format\<close> builds from
  the issues, with every empty list of reasons left out. In the report, the field
  \<^verbatim>\<open>_errors\<close> at a path of ordinary keys lists the failure reasons of that path, in the
  order of the issues, and a path without failure reasons has no field \<^verbatim>\<open>_errors\<close>
  at all, rather than an empty list.
\<close>

lemma schema_failure_report:
  assumes "read_config e = Inr config"
    and "createTagMap (js_or (js_get config ''tags'') (JArr [])) = Inr tags"
    and "validateConfigSchema config = Inl (ZodError issues)"
    and "group_titles_ordinary config"
  shows "\<exists>tree. format issues = Inr tree
    \<and> loadLocalConfig e =
        Inr (set_error (JStr (json_text (numberToString e) '' '' [] (prune_spec tree)))
               getDefaultConfig)
    \<and> no_empty_errors (prune_spec tree)
    \<and> (\<forall>p. list_all ordinary_key p \<longrightarrow>
          js_get (node_at (prune_spec tree) p) ''_errors'' =
            (if reasons_of issues p = [] then JUndefined else JArr (reasons_of issues p)))"
proof -
  from assms(1-3) have "try_block e = Inl (ZodError issues)"
    by (simp add: try_block_def build_config_def)
  then have load: "loadLocalConfig e = catch_block e (ZodError issues)"
    by (simp add: loadLocalConfig_def)
  from assms(3,4) have clean: "list_all clean_issue issues"
    by (rule validate_issues_clean)
  from catch_schema_failure [OF clean, of e] obtain tree where
    tree: "format issues = Inr tree" "is_node tree"
      "catch_block e (ZodError issues) =
        Inr (set_error (JStr (json_text (numberToString e) '' '' [] (prune_spec tree)))
               getDefaultConfig)"
    by blast
  have "js_get (node_at (prune_spec tree) p) ''_errors'' =
            (if reasons_of issues p = [] then JUndefined else JArr (reasons_of issues p))"
    if "list_all ordinary_key p" for p
    using prune_reasons [OF tree(2) that] format_reasons [OF clean tree(1) that] by simp
  with tree load prune_node_ok [OF tree(2)] show ?thesis
    by (intro exI [of _ tree]) simp
qed


lemma schema_failure_report_example:
  \<open>read_config (env_of doc_bad_types) = Inr doc_bad_types
   \<and> createTagMap (js_or (js_get doc_bad_types ''tags'') (JArr [])) = Inr Map.empty
   \<and> validateConfigSchema doc_bad_types = Inl (ZodError issues_bad_types)
   \<and> group_titles_ordinary doc_bad_types
   \<and> (\<exists>tree. format issues_bad_types = Inr tree
      \<and> loadLocalConfig (env_of doc_bad_types) =
          Inr (set_error
                 (JStr (json_text (numberToString (env_of doc_bad_types)) '' '' [] (prune_spec tree)))
                 getDefaultConfig)
      \<and> prune_spec tree = report_bad_types)
   \<and> no_empty_errors report_bad_types
   \<and> js_get (node_at report_bad_types []) ''_errors'' = JUndefined
   \<and> js_get (node_at report_bad_types [''services'', ''Home'']) ''_errors''
       = JArr [JStr ''Expected array, received string'']
   \<and> loadLocalConfig (env_of doc_bad_types) =
     Inr (set_error (JStr ''{\<newline> "title": {\<newline>  "_errors": [\<newline>   "Expected string, received number"\<newline>  ]\<newline> },\<newline> "services": {\<newline>  "_errors": [\<newline>   "Expected array, received object"\<newline>  ],\<newline>  "Home": {\<newline>   "_errors": [\<newline>    "Expected array, received string"\<newline>   ]\<newline>  }\<newline> }\<newline>}'')
            getDefaultConfig)\<close>
proof -
  have r: "read_config (env_of doc_bad_types) = Inr doc_bad_types"
    by (simp add: read_config_env_of js_or_def doc_bad_types_def)
  have t: "createTagMap (js_or (js_get doc_bad_types ''tags'') (JArr [])) = Inr Map.empty"
    by (simp add: createTagMap_def js_or_def doc_bad_types_def)
  have g: "group_titles_ordinary doc_bad_types"
    by (simp add: group_titles_ordinary_def doc_bad_types_def ordinary_key_def)
  from schema_failure_report [OF r t validate_bad_types g] obtain tree where
    tree: "format issues_bad_types = Inr tree"
      "loadLocalConfig (env_of doc_bad_types) =
          Inr (set_error
                 (JStr (json_text (numberToString (env_of doc_bad_types)) '' '' [] (prune_spec tree)))
                 getDefaultConfig)"
      "no_empty_errors (prune_spec tree)"
      "\<forall>p. list_all ordinary_key p \<longrightarrow>
          js_get (node_at (prune_spec tree) p) ''_errors'' =
            (if reasons_of issues_bad_types p = [] then JUndefined
             else JArr (reasons_of issues_bad_types p))"
    by blast
  from tree(1) have p: "prune_spec tree = report_bad_types"
    by (auto simp: format_bad_types report_bad_types_def)
  have o1: "list_all ordinary_key []" by simp
  have o2: "list_all ordinary_key [''services'', ''Home'']"
    by (simp add: ordinary_key_def)
  from tree(4) [rule_format, OF o1]
  have a: "js_get (node_at report_bad_types []) ''_errors'' = JUndefined"
    unfolding p by (simp add: reasons_of_def issues_bad_types_def)
  from tree(4) [rule_format, OF o2]
  have b: "js_get (node_at report_bad_types [''services'', ''Home'']) ''_errors''
       = JArr [JStr ''Expected array, received string'']"
    unfolding p by (simp add: reasons_of_def issues_bad_types_def)
  from tree(3) have c: "no_empty_errors report_bad_types"
    unfolding p .
  from tree(1,2) p have "\<exists>tree. format issues_bad_types = Inr tree
      \<and> loadLocalConfig (env_of doc_bad_types) =
          Inr (set_error
                 (JStr (json_text (numberToString (env_of doc_bad_types)) '' '' [] (prune_spec tree)))
                 getDefaultConfig)
      \<and> prune_spec tree = report_bad_types"
    by blast
  with r t validate_bad_types g a b c load_bad_types show ?thesis
    by (intro conjI)
qed

section \<open>The claims\<close>

text \<open>
  Claim C10. If what the \<^verbatim>\<open>try\<close> block of \<^verbatim>\<open>loadLocalConfig\<close> throws is not an
  \<^verbatim>\<open>Error\<close>, neither \<^verbatim>\<open>instanceof\<close> test of the \<^verbatim>\<open>catch\<close> block holds: the
  load still returns the default configuration, and that configuration has no
  \<^verbatim>\<open>error\<close> field.
\<close>

theorem non_error_is_silent:
  assumes "try_block e = Inl (NonError v)"
  shows "loadLocalConfig e = Inr getDefaultConfig \<and> \<not> has_key getDefaultConfig ''error''"
  using assms
  by (simp add: loadLocalConfig_def catch_block_def getDefaultConfig_def has_key_def)

theorem non_error_is_silent_witness:
  "try_block env_throwing = Inl (NonError (JStr ''unreachable''))
   \<and> loadLocalConfig env_throwing = Inr getDefaultConfig
   \<and> \<not> has_key getDefaultConfig ''error''"
proof -
  have thrown: "try_block env_throwing = Inl (NonError (JStr ''unreachable''))"
    by (simp add: try_block_def read_config_def env_throwing_def env_of_def)
  from non_error_is_silent [OF thrown] thrown show ?thesis by simp
qed

text \<open>
  Claim C9. \<^verbatim>\<open>validateConfigSchema\<close> rejects every document in which \<^verbatim>\<open>services\<close>
  is absent (it throws a \<^verbatim>\<open>ZodError\<close>), and \<^verbatim>\<open>services\<close> is the only mandatory
  top-level field: a document that is accepted is still accepted when every other
  top-level field is taken away.
\<close>

theorem services_is_mandatory:
  "(js_get config ''services'' = JUndefined \<longrightarrow>
      (\<exists>issues. validateConfigSchema config = Inl (ZodError issues)))
   \<and> ((\<exists>out. validateConfigSchema config = Inr out) \<longrightarrow>
      (\<exists>out'. validateConfigSchema (JObj [(''services'', js_get config ''services'')]) = Inr out'))"
proof (cases config)
  case (JObj kvs)
  have absent:
    "snd (parse (ZUnion [ZArray service_schema, ZRecord (ZArray service_schema)])
            [''services''] JUndefined) = None"
    by simp
  show ?thesis
    unfolding validate_accepts_iff validate_rejects_iff JObj
    using absent schema_accepts [of kvs]
      schema_accepts [of "[(''services'', js_get (JObj kvs) ''services'')]"]
    by auto
qed (simp_all add: validate_accepts_iff validate_rejects_iff schema_def)

theorem services_is_mandatory_witness:
  "(js_get (JObj []) ''services'' = JUndefined \<and>
      (\<exists>issues. validateConfigSchema (JObj []) = Inl (ZodError issues)))
   \<and> (\<exists>out. validateConfigSchema (JObj [(''title'', JStr ''Home''), (''services'', JArr [])])
              = Inr out)
   \<and> (\<exists>out'. validateConfigSchema (JObj [(''services'', JArr [])]) = Inr out')"
proof -
  have a: "js_get (JObj []) ''services'' = JUndefined" by simp
  have b: "\<exists>out. validateConfigSchema (JObj [(''title'', JStr ''Home''), (''services'', JArr [])])
                  = Inr out"
    by (simp add: validateConfigSchema_def schema_def expect_def obj_set_def array_index_def
        has_key_def)
  from services_is_mandatory [of "JObj []"]
    services_is_mandatory [of "JObj [(''title'', JStr ''Home''), (''services'', JArr [])]"] a b
  show ?thesis by simp
qed

text \<open>
  Claim C4, as amended. The claim says that \<^verbatim>\<open>validateConfigSchema\<close> returns its input
  unchanged. The objects of the schema are not \<^verbatim>\<open>.passthrough()\<close> objects, so the
  value returned holds the fields of the schema only. What holds: the value returned
  for an accepted input is the input with exactly the fields taken away that the schema
  does not name, and nothing else changed. Every field of an object of the result is a
  field of the object of the input at the same place, with the same value up to fields
  taken away inside it (no value is coerced or normalized, nothing is added); the
  top-level fields of the result are exactly the fields of the input that the schema
  names; and, the input listing each key of an object once, the same holds at every
  depth: in each object that the schema describes by its fields (the document, a tag, a
  service, the \<^verbatim>\<open>icon\<close> and the \<^verbatim>\<open>status\<close> of a service) the result has exactly the
  fields of the input that the schema names for it, the \<^verbatim>\<open>options\<close> and \<^verbatim>\<open>secrets\<close>
  of a service keep every entry (but one under the key \<^verbatim>\<open>__proto__\<close>), and every
  sequence keeps its length and order. So an input all of whose fields the schema names
  is returned with the same fields and the same values; only the order in which an object
  lists its fields may differ.
\<close>

theorem validated_value_is_restriction:
  assumes "validateConfigSchema config = Inr out"
  shows "restriction_of out config
    \<and> (\<forall>k. has_key out k \<longleftrightarrow>
          has_key config k
          \<and> k \<in> {''title'', ''lang'', ''theme'', ''checkUpdates'', ''tags'', ''services''})
    \<and> (well_formed config \<longrightarrow>
          stripped schema config out
          \<and> (all_named schema config \<longrightarrow> same_value out config))"
proof -
  from assms have p: "snd (parse schema [] config) = Some out"
    by (auto simp: validateConfigSchema_def split: prod.splits option.splits)
  have "has_key out k \<longleftrightarrow>
          has_key config k
          \<and> k \<in> {''title'', ''lang'', ''theme'', ''checkUpdates'', ''tags'', ''services''}" for k
    using object_keys [OF p [unfolded schema_def], of k] by auto
  moreover have s: "stripped schema config out" if "well_formed config"
    using p that by (rule parse_stripped(1))
  moreover have "same_value out config" if "well_formed config" "all_named schema config"
    using s [OF that(1)] that(2,1) by (rule stripped_same_value)
  ultimately show ?thesis
    using parse_restriction(1) [OF p] by blast
qed

theorem validated_value_is_restriction_witness:
  "validateConfigSchema doc_with_behaviour = Inr (JObj [(''services'', JArr [])])
   \<and> restriction_of (JObj [(''services'', JArr [])]) doc_with_behaviour
   \<and> (\<forall>k. has_key (JObj [(''services'', JArr [])]) k \<longleftrightarrow>
          has_key doc_with_behaviour k
          \<and> k \<in> {''title'', ''lang'', ''theme'', ''checkUpdates'', ''tags'', ''services''})
   \<and> validateConfigSchema doc_nested = Inr validated_nested
   \<and> well_formed doc_nested
   \<and> stripped schema doc_nested validated_nested
   \<and> validateConfigSchema doc_all_named = Inr validated_all_named
   \<and> well_formed doc_all_named
   \<and> all_named schema doc_all_named
   \<and> same_value validated_all_named doc_all_named"
proof -
  have wf: "well_formed doc_nested"
    by (simp add: doc_nested_def)
  note n = validated_value_is_restriction [OF validate_nested]
  from n [THEN conjunct2, THEN conjunct2] wf
  have "stripped schema doc_nested validated_nested
      \<and> (all_named schema doc_nested \<longrightarrow> same_value validated_nested doc_nested)"
    by (rule mp)
  then have s: "stripped schema doc_nested validated_nested" by (rule conjunct1)
  have wf': "well_formed doc_all_named"
    by (simp add: doc_all_named_def)
  note a = validated_value_is_restriction [OF validate_all_named]
  from a [THEN conjunct2, THEN conjunct2] wf'
  have "stripped schema doc_all_named validated_all_named
      \<and> (all_named schema doc_all_named \<longrightarrow> same_value validated_all_named doc_all_named)"
    by (rule mp)
  then have "all_named schema doc_all_named \<longrightarrow> same_value validated_all_named doc_all_named"
    by (rule conjunct2)
  from this all_named_example have e: "same_value validated_all_named doc_all_named"
    by (rule mp)
  note b = validated_value_is_restriction [OF validate_doc_with_behaviour]
  from validate_doc_with_behaviour b [THEN conjunct1] b [THEN conjunct2, THEN conjunct1]
    validate_nested wf s validate_all_named wf' all_named_example e
  show ?thesis
    by (intro conjI)
qed

text \<open>Counterexample to claim C4 as stated: the document is accepted, and the value
  returned has lost \<^verbatim>\<open>behaviour\<close>.\<close>

theorem validated_value_differs:
  "validateConfigSchema doc_with_behaviour = Inr (JObj [(''services'', JArr [])])
   \<and> JObj [(''services'', JArr [])] \<noteq> doc_with_behaviour"
  using validate_doc_with_behaviour by (simp add: doc_with_behaviour_def)

text \<open>
  Claim C6. Tag resolution, for declared tags that are objects (as the schema demands).
  The lookup built by \<^verbatim>\<open>createTagMap\<close> answers a name with the last declaration of
  that name. A bare name that is declared resolves to the declared tag itself (so to its
  color); a bare name that is not declared resolves to a new tag with that name and the
  color \<^verbatim>\<open>blue\<close>; a reference that is not a string passes through unchanged; and the
  resolved tags of a service are the resolved references in the order of the
  references.
\<close>

theorem tag_resolution:
  assumes "list_all isPlainObject declared"
  shows "\<exists>tags. createTagMap (JArr declared) = Inr tags
    \<and> (\<forall>name. resolve_tag tags (JStr name) =
          (case last_declared declared name of
             Some t \<Rightarrow> t
           | None \<Rightarrow> JObj [(''name'', JStr name), (''color'', JStr ''blue'')]))
    \<and> (\<forall>ref. (\<forall>name. ref \<noteq> JStr name) \<longrightarrow> resolve_tag tags ref = ref)
    \<and> (\<forall>uuid item refs. js_get item ''tags'' = JArr refs \<longrightarrow>
          (\<exists>service. determine_item tags uuid item = Inr service
             \<and> js_get service ''tags'' = JArr (map (resolve_tag tags) refs)))"
proof -
  from tags_reduce_objects [OF assms, of Map.empty]
  obtain tags where t: "tags_reduce declared Map.empty = Inr tags"
    and l: "\<And>name. tags (JStr name) = last_declared declared name"
    by (auto split: option.splits) (metis option.exhaust option.simps(4,5))
  have 1: "resolve_tag tags (JStr name) =
          (case last_declared declared name of
             Some t \<Rightarrow> t
           | None \<Rightarrow> JObj [(''name'', JStr name), (''color'', JStr ''blue'')])" for name
    using last_declared_object [OF assms, of name]
    by (auto simp: resolve_tag_def l js_or_def split: option.splits)
  have 2: "resolve_tag tags ref = ref" if "\<forall>name. ref \<noteq> JStr name" for ref
    using that by (cases ref) (simp_all add: resolve_tag_def)
  have 3: "\<exists>service. determine_item tags uuid item = Inr service
             \<and> js_get service ''tags'' = JArr (map (resolve_tag tags) refs)"
    if "js_get item ''tags'' = JArr refs" for uuid item refs
  proof -
    from that have "item \<noteq> JNull" "item \<noteq> JUndefined" by auto
    with that show ?thesis
      by (simp add: determine_item_def get_prop_def js_or_def map_of_obj_set)
  qed
  from t 1 2 3 show ?thesis
    by (simp add: createTagMap_def)
qed

theorem tag_resolution_witness:
  "list_all isPlainObject declared_twice
   \<and> (\<exists>tags. createTagMap (JArr declared_twice) = Inr tags
        \<and> resolve_tag tags (JStr ''x'') = JObj [(''name'', JStr ''x''), (''color'', JStr ''green'')]
        \<and> resolve_tag tags (JStr ''y'') = JObj [(''name'', JStr ''y''), (''color'', JStr ''blue'')]
        \<and> resolve_tag tags (JObj [(''name'', JStr ''z'')]) = JObj [(''name'', JStr ''z'')]
        \<and> (\<exists>service.
              determine_item tags ''id-0'' (JObj [(''tags'', JArr [JStr ''y'', JStr ''x''])]) = Inr service
              \<and> js_get service ''tags''
                  = JArr [JObj [(''name'', JStr ''y''), (''color'', JStr ''blue'')],
                          JObj [(''name'', JStr ''x''), (''color'', JStr ''green'')]]))"
proof -
  have d: "list_all isPlainObject declared_twice"
    by (simp add: declared_twice_def isPlainObject_def)
  from tag_resolution [OF d] obtain tags where
    t: "createTagMap (JArr declared_twice) = Inr tags"
    and 1: "\<And>name. resolve_tag tags (JStr name) =
          (case last_declared declared_twice name of
             Some t \<Rightarrow> t
           | None \<Rightarrow> JObj [(''name'', JStr name), (''color'', JStr ''blue'')])"
    and 2: "\<And>ref. (\<forall>name. ref \<noteq> JStr name) \<Longrightarrow> resolve_tag tags ref = ref"
    and 3: "\<And>uuid item refs. js_get item ''tags'' = JArr refs \<Longrightarrow>
          (\<exists>service. determine_item tags uuid item = Inr service
             \<and> js_get service ''tags'' = JArr (map (resolve_tag tags) refs))"
    by blast
  have x: "resolve_tag tags (JStr ''x'') = JObj [(''name'', JStr ''x''), (''color'', JStr ''green'')]"
    by (simp add: 1 last_declared_def declared_twice_def)
  have y: "resolve_tag tags (JStr ''y'') = JObj [(''name'', JStr ''y''), (''color'', JStr ''blue'')]"
    by (simp add: 1 last_declared_def declared_twice_def)
  have z: "resolve_tag tags (JObj [(''name'', JStr ''z'')]) = JObj [(''name'', JStr ''z'')]"
    by (simp add: 2)
  from 3 [of "JObj [(''tags'', JArr [JStr ''y'', JStr ''x''])]" "[JStr ''y'', JStr ''x'']" "''id-0''"]
  have "\<exists>service.
      determine_item tags ''id-0'' (JObj [(''tags'', JArr [JStr ''y'', JStr ''x''])]) = Inr service
      \<and> js_get service ''tags''
          = JArr [JObj [(''name'', JStr ''y''), (''color'', JStr ''blue'')],
                  JObj [(''name'', JStr ''x''), (''color'', JStr ''green'')]]"
    by (simp add: x y)
  with d t x y z show ?thesis by blast
qed




text \<open>
  Claim C2, as amended. The claim says that all fields other than \<^verbatim>\<open>secrets\<close> are
  unchanged for every configuration. The copy goes through a JSON text, which cannot
  write every value. What holds: for every configuration, the result has no field
  named \<^verbatim>\<open>secrets\<close> at any depth; and for every configuration that holds only values
  JSON can write (no \<^verbatim>\<open>undefined\<close>, every number finite), the result is the
  configuration with every field named \<^verbatim>\<open>secrets\<close> left out and all other fields
  unchanged.
\<close>

theorem safe_copy_omits_secrets:
  "(config \<noteq> JUndefined \<longrightarrow>
      (\<exists>out. extractSafelyConfig config = Inr out \<and> \<not> has_field ''secrets'' out))
   \<and> (json_value config \<longrightarrow> extractSafelyConfig config = Inr (remove_secrets_spec config))"
proof -
  from serialize_secrets_clean [of "[]" config] obtain out where
    out: "serialize secrets_replacer [] config = Inr out" "\<not> has_field ''secrets'' out"
    by blast
  have "secrets_replacer [] config = Inr False"
    by (simp add: secrets_replacer_def)
  then have "out = JUndefined \<Longrightarrow> config = JUndefined"
    using out(1) by (cases config) (auto simp: serialize_kept split: sum.splits if_splits)
  with out have 1: "\<exists>out. extractSafelyConfig config = Inr out \<and> \<not> has_field ''secrets'' out"
    if "config \<noteq> JUndefined"
    using that by (cases out) (auto simp: extractSafelyConfig_def)
  have 2: "extractSafelyConfig config = Inr (remove_secrets_spec config)" if "json_value config"
    using serialize_secrets_json [OF that, of "[]"] remove_secrets_defined [OF that]
    by (cases "remove_secrets_spec config") (simp_all add: extractSafelyConfig_def)
  from 1 2 show ?thesis by blast
qed

theorem safe_copy_omits_secrets_witness:
  "config_with_secrets \<noteq> JUndefined \<and> json_value config_with_secrets
   \<and> (\<exists>out. extractSafelyConfig config_with_secrets = Inr out \<and> \<not> has_field ''secrets'' out)
   \<and> extractSafelyConfig config_with_secrets = Inr (remove_secrets_spec config_with_secrets)"
proof -
  have "config_with_secrets \<noteq> JUndefined" and "json_value config_with_secrets"
    by (simp_all add: config_with_secrets_def is_finite_def)
  with safe_copy_omits_secrets [of config_with_secrets] show ?thesis by blast
qed

text \<open>Counterexample to claim C2 as stated: \<^verbatim>\<open>options.limit\<close> is not a field named
  \<^verbatim>\<open>secrets\<close>, and the copy has \<^verbatim>\<open>null\<close> where the configuration has
  \<^verbatim>\<open>Infinity\<close>.\<close>

theorem safe_copy_changes_infinity:
  "extractSafelyConfig config_with_infinity \<noteq> Inr (remove_secrets_spec config_with_infinity)
   \<and> (\<exists>out. extractSafelyConfig config_with_infinity = Inr out)"
  unfolding extract_config_with_infinity
  by (simp add: config_with_infinity_def)

text \<open>
  Claim C7. If the identifier generator never returns the same string twice, the
  identifiers of the services of the configuration that a load returns are pairwise
  distinct, across all its groups: they are the strings that the generator returned
  during the load, in order. The parsed document is a value of JavaScript.
\<close>

theorem identifiers_are_unique:
  assumes "inj (randomUUID e)"
    and "\<And>config. read_config e = Inr config \<Longrightarrow> well_formed config"
    and "loadLocalConfig e = Inr cfg"
  shows "distinct (service_ids cfg)
    \<and> service_ids cfg = map (\<lambda>n. JStr (randomUUID e n)) [0..<length (service_ids cfg)]"
proof -
  have "\<exists>n'. service_ids cfg = map (\<lambda>n. JStr (randomUUID e n)) [0..<n']"
  proof (cases "try_block e")
    case (Inl x)
    with assms(3) have "cfg = getDefaultConfig \<or> (\<exists>msg. cfg = set_error msg getDefaultConfig)"
      by (auto simp: loadLocalConfig_def catch_block_def split: thrown.splits sum.splits)
    then have "service_ids cfg = []"
      by (auto simp: service_ids_def set_error_def getDefaultConfig_def map_of_obj_set)
    then show ?thesis by (auto intro: exI [of _ 0])
  next
    case (Inr c)
    with assms(3) have c: "c = cfg" by (simp add: loadLocalConfig_def)
    from Inr obtain config where r: "read_config e = Inr config"
      and b: "build_config e config = Inr cfg"
      by (auto simp: try_block_def c split: sum.splits)
    from build_config_success [OF b] obtain kvs tags groups where
      config: "config = JObj kvs"
      and n: "normalize_services (randomUUID e) tags (js_get config ''services'') = Inr groups"
      and cfg: "cfg = defu (JObj (obj_set ''services'' (JArr groups) kvs)) getDefaultConfig"
      by blast
    from assms(2) [OF r] have "distinct (map fst kvs)" by (simp add: config)
    from merged_services [OF this] have "js_get cfg ''services'' = JArr groups"
      by (simp only: cfg)
    with normalize_services_ids [OF n] show ?thesis
      by (simp add: service_ids_def)
  qed
  then obtain n' where ids: "service_ids cfg = map (\<lambda>n. JStr (randomUUID e n)) [0..<n']"
    by blast
  have "inj (\<lambda>n. JStr (randomUUID e n))"
    using assms(1) by (auto simp: inj_def)
  then have "distinct (map (\<lambda>n. JStr (randomUUID e n)) [0..<n'])"
    by (simp add: distinct_map inj_on_def inj_def)
  with ids show ?thesis by simp
qed

theorem identifiers_are_unique_witness:
  "inj (randomUUID (env_of doc_two_groups))
   \<and> read_config (env_of doc_two_groups) = Inr doc_two_groups
   \<and> well_formed doc_two_groups
   \<and> loadLocalConfig (env_of doc_two_groups) = Inr config_two_groups
   \<and> distinct (service_ids config_two_groups)
   \<and> service_ids config_two_groups = [JStr ''id-'', JStr ''id-i'', JStr ''id-ii'']"
proof -
  have r: "read_config (env_of doc_two_groups) = Inr doc_two_groups"
    by (simp add: read_config_env_of js_or_def doc_two_groups_def)
  have wf: "well_formed doc_two_groups"
    by (simp add: doc_two_groups_def)
  have ids: "service_ids config_two_groups = [JStr ''id-'', JStr ''id-i'', JStr ''id-ii'']"
    by (simp add: service_ids_def group_ids_def config_two_groups_def)
  from identifiers_are_unique [OF inj_env_of _ load_two_groups] r wf
  have "distinct (service_ids config_two_groups)"
    by simp
  with inj_env_of r wf load_two_groups ids show ?thesis by blast
qed

text \<open>
  Claim C5, as amended. The claim holds for every validated document and speaks of the
  declared order of a mapping. The schema does not look at the \<^verbatim>\<open>tags\<close> field of a
  service, and \<^verbatim>\<open>determineService\<close> throws when that field is neither falsy nor a
  sequence; the load then returns the default configuration, with no group. And the
  loop over a mapping follows \<^verbatim>\<open>Object.entries\<close>, which lists the keys that are array
  indices first, in ascending order, whatever the order of their declaration. What
  holds: for every validated document in which the \<^verbatim>\<open>tags\<close> field of every service is
  absent, falsy or a sequence, the load returns a configuration; if \<^verbatim>\<open>services\<close> is a
  sequence, its services are exactly one group with no title whose items are the
  normalized services of the sequence; if \<^verbatim>\<open>services\<close> is a mapping with N entries,
  its services are exactly N groups, one per entry in the order in which the engine
  enumerates the entries, each with the key as title and the normalized sequence of that
  key as items. For a mapping that declares each key once, this order is: the entries
  whose keys are array indices, in ascending order of the index, and then the other
  entries in their declared order; it is the declared order when no key is an array
  index.
\<close>

theorem services_become_groups:
  assumes "read_config e = Inr config"
    and "well_formed config"
    and "validateConfigSchema config = Inr validated"
    and "services_tags_ok (js_get config ''services'')"
  shows "\<exists>cfg tags. loadLocalConfig e = Inr cfg
    \<and> createTagMap (js_or (js_get config ''tags'') (JArr [])) = Inr tags
    \<and> (case js_get config ''services'' of
         JArr xs \<Rightarrow>
           js_get cfg ''services''
             = JArr [JObj [(''items'', JArr (normalized_list_spec (randomUUID e) tags 0 xs))]]
       | JObj kvs \<Rightarrow>
           js_get cfg ''services'' = JArr (groups_spec (randomUUID e) tags 0 kvs)
           \<and> length (groups_spec (randomUUID e) tags 0 kvs) = length kvs
           \<and> map (\<lambda>g. js_get g ''title'') (groups_spec (randomUUID e) tags 0 kvs)
               = map (\<lambda>(k, v). JStr k) kvs
           \<and> (\<forall>entries. kvs = declared_object entries \<and> distinct (map fst entries) \<longrightarrow>
                 enumeration_of entries kvs
                 \<and> (list_all (\<lambda>kv. \<not> is_index kv) entries \<longrightarrow> kvs = entries))
       | _ \<Rightarrow> False)"
proof -
  from assms(3) obtain ckvs where config: "config = JObj ckvs"
    using validated_is_object by blast
  from assms(2) have d: "distinct (map fst ckvs)" by (simp add: config)
  from createTagMap_validated [OF assms(3)] obtain tags where
    tags: "createTagMap (js_or (js_get config ''tags'') (JArr [])) = Inr tags" ..
  note n = normalize_services_validated [OF assms(3,4), of "randomUUID e" tags]
  then obtain groups where
    groups: "normalize_services (randomUUID e) tags (js_get config ''services'') = Inr groups"
    by (cases "js_get config ''services''") simp_all
  define cfg where
    "cfg = defu (JObj (obj_set ''services'' (JArr groups) ckvs)) getDefaultConfig"
  have "build_config e config = Inr cfg"
    using tags assms(3) groups by (simp add: build_config_def cfg_def config)
  with assms(1) have load: "loadLocalConfig e = Inr cfg"
    by (simp add: loadLocalConfig_def try_block_def)
  have s: "js_get cfg ''services'' = JArr groups"
    unfolding cfg_def by (rule merged_services [OF d])
  have "(case js_get config ''services'' of
         JArr xs \<Rightarrow>
           js_get cfg ''services''
             = JArr [JObj [(''items'', JArr (normalized_list_spec (randomUUID e) tags 0 xs))]]
       | JObj kvs \<Rightarrow>
           js_get cfg ''services'' = JArr (groups_spec (randomUUID e) tags 0 kvs)
           \<and> length (groups_spec (randomUUID e) tags 0 kvs) = length kvs
           \<and> map (\<lambda>g. js_get g ''title'') (groups_spec (randomUUID e) tags 0 kvs)
               = map (\<lambda>(k, v). JStr k) kvs
           \<and> (\<forall>entries. kvs = declared_object entries \<and> distinct (map fst entries) \<longrightarrow>
                 enumeration_of entries kvs
                 \<and> (list_all (\<lambda>kv. \<not> is_index kv) entries \<longrightarrow> kvs = entries))
       | _ \<Rightarrow> False)"
    using n groups s
    by (cases "js_get config ''services''")
      (auto simp: length_groups_spec titles_groups_spec declared_object_order
        declared_object_plain simp del: js_get.simps)
  with load tags show ?thesis by blast
qed

theorem services_become_groups_witness:
  "read_config (env_of doc_two_groups) = Inr doc_two_groups
   \<and> well_formed doc_two_groups
   \<and> validateConfigSchema doc_two_groups =
       Inr (JObj [(''services'',
             JObj [(''Dev'', JArr [JObj [(''title'', JStr ''Git'')], JObj []]),
                   (''Home'', JArr [JObj []])])])
   \<and> services_tags_ok (js_get doc_two_groups ''services'')
   \<and> loadLocalConfig (env_of doc_two_groups) = Inr config_two_groups
   \<and> js_get config_two_groups ''services''
       = JArr (groups_spec (randomUUID (env_of doc_two_groups)) Map.empty 0
                 [(''Dev'', JArr [JObj [(''title'', JStr ''Git'')], JObj []]),
                  (''Home'', JArr [JObj [(''tags'', JArr [JStr ''x''])]])])
   \<and> js_get doc_two_groups ''services''
       = JObj (declared_object
                 [(''Dev'', JArr [JObj [(''title'', JStr ''Git'')], JObj []]),
                  (''Home'', JArr [JObj [(''tags'', JArr [JStr ''x''])]])])
   \<and> distinct (map fst [(''Dev'', JArr [JObj [(''title'', JStr ''Git'')], JObj []]),
                         (''Home'', JArr [JObj [(''tags'', JArr [JStr ''x''])]])])
   \<and> list_all (\<lambda>kv. \<not> is_index kv)
         [(''Dev'', JArr [JObj [(''title'', JStr ''Git'')], JObj []]),
          (''Home'', JArr [JObj [(''tags'', JArr [JStr ''x''])]])]
   \<and> enumeration_of
         [(''Dev'', JArr [JObj [(''title'', JStr ''Git'')], JObj []]),
          (''Home'', JArr [JObj [(''tags'', JArr [JStr ''x''])]])]
         [(''Dev'', JArr [JObj [(''title'', JStr ''Git'')], JObj []]),
          (''Home'', JArr [JObj [(''tags'', JArr [JStr ''x''])]])]"
proof -
  define entries where "entries =
    [(''Dev'', JArr [JObj [(''title'', JStr ''Git'')], JObj []]),
     (''Home'', JArr [JObj [(''tags'', JArr [JStr ''x''])]])]"
  have o: "declared_object entries = entries"
    by (simp add: entries_def declared_object_def eval_simps)
  have dist: "distinct (map fst entries)"
    by (simp add: entries_def)
  have plain: "list_all (\<lambda>kv. \<not> is_index kv) entries"
    by (simp add: entries_def is_index_def eval_simps)
  have r: "read_config (env_of doc_two_groups) = Inr doc_two_groups"
    by (simp add: read_config_env_of js_or_def doc_two_groups_def)
  have wf: "well_formed doc_two_groups"
    by (simp add: doc_two_groups_def)
  have ok: "services_tags_ok (js_get doc_two_groups ''services'')"
    by (simp add: doc_two_groups_def services_tags_ok_def tags_ok_def js_or_def)
  have t: "createTagMap (js_or (js_get doc_two_groups ''tags'') (JArr [])) = Inr Map.empty"
    by (simp add: createTagMap_def js_or_def doc_two_groups_def)
  have s: "js_get doc_two_groups ''services'' =
      JObj [(''Dev'', JArr [JObj [(''title'', JStr ''Git'')], JObj []]),
            (''Home'', JArr [JObj [(''tags'', JArr [JStr ''x''])]])]"
    by (simp add: doc_two_groups_def)
  have s': "js_get doc_two_groups ''services'' = JObj entries"
    by (simp add: s entries_def)
  from services_become_groups [OF r wf validate_two_groups ok]
  have "js_get config_two_groups ''services''
       = JArr (groups_spec (randomUUID (env_of doc_two_groups)) Map.empty 0 entries)
     \<and> (\<forall>es. entries = declared_object es \<and> distinct (map fst es) \<longrightarrow>
           enumeration_of es entries)"
    unfolding s' load_two_groups t by auto
  then have "js_get config_two_groups ''services''
       = JArr (groups_spec (randomUUID (env_of doc_two_groups)) Map.empty 0 entries)"
    and "entries = declared_object entries \<and> distinct (map fst entries) \<longrightarrow>
           enumeration_of entries entries"
    by blast+
  with o dist have "js_get config_two_groups ''services''
       = JArr (groups_spec (randomUUID (env_of doc_two_groups)) Map.empty 0 entries)"
    and "enumeration_of entries entries"
    by simp_all
  with r wf validate_two_groups ok load_two_groups s' o dist plain show ?thesis
    unfolding entries_def by simp
qed

text \<open>Counterexample to claim C5 as stated. A document is validated and its
  \<^verbatim>\<open>services\<close> are a sequence of one service, but the configuration that the load
  returns is the default one with an \<^verbatim>\<open>error\<close>, and it has no group. And a document
  declares the groups \<^verbatim>\<open>b\<close>, \<^verbatim>\<open>10\<close> and \<^verbatim>\<open>2\<close>, in this order, but the groups
  of the configuration that the load returns are \<^verbatim>\<open>2\<close>, \<^verbatim>\<open>10\<close> and \<^verbatim>\<open>b\<close>.\<close>

theorem groups_differ_from_claim:
  "validateConfigSchema doc_bad_tags = Inr (JObj [(''services'', JArr [JObj []])])
   \<and> js_get doc_bad_tags ''services'' = JArr [JObj [(''tags'', JStr ''x'')]]
   \<and> loadLocalConfig (env_of doc_bad_tags) =
       Inr (set_error (JStr ''(item.tags || []).map is not a function'') getDefaultConfig)
   \<and> js_get (set_error (JStr ''(item.tags || []).map is not a function'') getDefaultConfig)
        ''services'' = JArr []
   \<and> js_get doc_numbered_groups ''services''
       = JObj (declared_object [(''b'', JArr []), (''10'', JArr []), (''2'', JArr [])])
   \<and> loadLocalConfig (env_of doc_numbered_groups) = Inr config_numbered_groups
   \<and> js_get config_numbered_groups ''services''
       = JArr [JObj [(''title'', JStr ''2''), (''items'', JArr [])],
               JObj [(''title'', JStr ''10''), (''items'', JArr [])],
               JObj [(''title'', JStr ''b''), (''items'', JArr [])]]"
  using validate_bad_tags load_bad_tags load_numbered_groups
  by (simp add: doc_bad_tags_def set_error_def getDefaultConfig_def map_of_obj_set
      doc_numbered_groups_def config_numbered_groups_def)




text \<open>
  Claim C8. When the load fails because \<^verbatim>\<open>validateConfigSchema\<close> rejects the parsed
  document, the \<^verbatim>\<open>error\<close> of the configuration returned is the text of a report of
  the failure reasons by field path, in which a path without reasons has no list. The
  \<^verbatim>\<open>catch\<close> block does this for every document whose group names are ordinary keys
  (\<open>schema_failure_report\<close>). For a document whose \<^verbatim>\<open>services\<close> mapping has the key
  \<^verbatim>\<open>_errors\<close> it does not: the schema rejects the document, with an issue at the path
  \<^verbatim>\<open>services._errors\<close>, \<^verbatim>\<open>format\<close> takes the list of reasons of \<^verbatim>\<open>services\<close> for
  the node of that path and throws, nothing catches what the \<^verbatim>\<open>catch\<close> block throws,
  and the load raises instead of returning a configuration with the report.
\<close>

theorem schema_failure_without_report:
  "validateConfigSchema doc_errors_title =
      Inl (ZodError [invalid_union [''services'']
             [[invalid_type [''services''] ''array'' ''object''],
              [invalid_type [''services'', ''_errors''] ''array'' ''number'']]])
   \<and> format [invalid_union [''services'']
             [[invalid_type [''services''] ''array'' ''object''],
              [invalid_type [''services'', ''_errors''] ''array'' ''number'']]]
       = Inl (TypeError ''_errors.push is not a function'')
   \<and> loadLocalConfig (env_of doc_errors_title)
       = Inl (TypeError ''_errors.push is not a function'')"
  using validate_errors_title load_errors_title
  by (simp add: format_def empty_node_def push_error_def eval_simps)

end
